theory Spec2Isabelle
  imports Main "HOL-Library.Word"
begin

section \<open>The Telnet engine of lib/telnet.js\<close>

text \<open>
  A shallow embedding of \<^verbatim>\<open>lib/telnet.js\<close>: the escape tables, the frame parser
  (\<^verbatim>\<open>parse\<close>, \<^verbatim>\<open>parseCommand\<close>, \<^verbatim>\<open>parseOption\<close> and the
  handler tables), the option sets, and the \<^verbatim>\<open>Socket\<close> with its input handler and its
  \<^verbatim>\<open>write\<close>.

  Octets are \<open>8 word\<close>. A \<^verbatim>\<open>Buffers\<close> collection (the pending buffer) is the list of
  its octets: \<^verbatim>\<open>push\<close> appends, \<^verbatim>\<open>length\<close> is the length, \<^verbatim>\<open>get(i)\<close> reads
  an octet and throws out of range, \<^verbatim>\<open>splice(0, n)\<close> removes and returns the first
  \<open>n\<close> octets, \<^verbatim>\<open>indexOf\<close> finds the first occurrence of a needle.
  A JavaScript exception is a value of \<open>error\<close>; since the parser mutates the buffer it
  is given, every parser function returns the buffer as it leaves it, also when it throws.

  Left out: the \<^verbatim>\<open>Command\<close> builder, the \<^verbatim>\<open>telnet\<close> server function, the proxying
  of \<^verbatim>\<open>end\<close>, \<^verbatim>\<open>close\<close>, \<^verbatim>\<open>drain\<close> and \<^verbatim>\<open>error\<close>, and the flow control of the
  input (\<^verbatim>\<open>pause\<close> and \<^verbatim>\<open>resume\<close>), which the runtime's streams carry out: the
  model starts where the runtime hands a chunk to the input's \<^verbatim>\<open>'data'\<close> listener.
\<close>

subsection \<open>Octets, errors and the Buffers collection\<close>

type_synonym byte = "8 word"

datatype error =
    AssertionError  \<comment> \<open>a failed \<^verbatim>\<open>assert(...)\<close>\<close>
  | TypeError       \<comment> \<open>calling \<^verbatim>\<open>undefined\<close>: a table has no handler for the code\<close>
  | OobError        \<comment> \<open>\<^verbatim>\<open>Buffers.get\<close> out of range\<close>

definition Buffers_get :: "byte list \<Rightarrow> nat \<Rightarrow> error + byte" where
  "Buffers_get bufs i = (if i < length bufs then Inr (bufs ! i) else Inl OobError)"

text \<open>\<^verbatim>\<open>bufs.splice(0, n)\<close>: the removed octets and the octets that stay.\<close>

definition Buffers_splice :: "byte list \<Rightarrow> nat \<Rightarrow> byte list \<times> byte list" where
  "Buffers_splice bufs n = (take n bufs, drop n bufs)"

text \<open>\<^verbatim>\<open>bufs.indexOf(needle)\<close> for a needle of one octet; \<open>None\<close> is the \<open>-1\<close>.\<close>

fun Buffers_indexOf :: "byte list \<Rightarrow> byte \<Rightarrow> nat option" where
  "Buffers_indexOf [] c = None"
| "Buffers_indexOf (x # xs) c =
     (if x = c then Some 0 else map_option Suc (Buffers_indexOf xs c))"

subsection \<open>Escape tables\<close>

abbreviation SE :: byte where "SE \<equiv> 240"
abbreviation SB :: byte where "SB \<equiv> 250"
abbreviation WILL :: byte where "WILL \<equiv> 251"
abbreviation WONT :: byte where "WONT \<equiv> 252"
abbreviation DO :: byte where "DO \<equiv> 253"
abbreviation DONT :: byte where "DONT \<equiv> 254"
abbreviation IAC :: byte where "IAC \<equiv> 255"

abbreviation WINDOW_SIZE :: byte where "WINDOW_SIZE \<equiv> 31"

definition COMMANDS :: "(string \<times> byte) list" where
  "COMMANDS =
    [(''SE'', 240), (''NOP'', 241), (''DM'', 242), (''BRK'', 243), (''IP'', 244),
     (''AO'', 245), (''AYT'', 246), (''EC'', 247), (''EL'', 248), (''GA'', 249),
     (''SB'', 250), (''WILL'', 251), (''WONT'', 252), (''DO'', 253), (''DONT'', 254),
     (''IAC'', 255)]"

definition OPTIONS :: "(string \<times> byte) list" where
  "OPTIONS =
    [(''TRANSMIT_BINARY'', 0), (''ECHO'', 1), (''SUPPRESS_GO_AHEAD'', 3), (''STATUS'', 5),
     (''TIMING_MARK'', 6), (''TERMINAL_TYPE'', 24), (''WINDOW_SIZE'', 31),
     (''TERMINAL_SPEED'', 32), (''REMOTE_FLOW_CONTROL'', 33), (''LINEMODE'', 34),
     (''X_DISPLAY_LOCATION'', 35), (''AUTHENTICATION'', 37),
     (''ENVIRONMENT_VARIABLES'', 39)]"

text \<open>\<^verbatim>\<open>name.toLowerCase()\<close> on the ASCII names of the tables.\<close>

definition toLowerCase :: "string \<Rightarrow> string" where
  "toLowerCase s =
     map (\<lambda>c. let n = (of_char c :: nat)
              in if 65 \<le> n \<and> n \<le> 90 then char_of (n + 32) else c) s"

text \<open>\<^verbatim>\<open>.replace(/_/g, ' ')\<close>.\<close>

definition underscores_to_spaces :: "string \<Rightarrow> string" where
  "underscores_to_spaces s = map (\<lambda>c. if c = CHR ''_'' then CHR '' '' else c) s"

definition COMMAND_NAMES :: "byte \<Rightarrow> string option" where
  "COMMAND_NAMES = map_of (map (\<lambda>(name, code). (code, toLowerCase name)) COMMANDS)"

definition OPTION_NAMES :: "byte \<Rightarrow> string option" where
  "OPTION_NAMES =
     map_of (map (\<lambda>(name, code). (code, underscores_to_spaces (toLowerCase name))) OPTIONS)"

subsection \<open>Parse events\<close>

text \<open>
  The event object starts as \<^verbatim>\<open>{}\<close>; a field that has not been assigned (or was
  assigned \<^verbatim>\<open>undefined\<close>) is \<open>None\<close>.
\<close>

record event =
  commandCode :: "byte option"
  command :: "string option"
  optionCode :: "byte option"
  option :: "string option"
  buf :: "byte list option"
  data :: "byte list option"
  width :: "nat option"
  height :: "nat option"
  cols :: "nat option"
  columns :: "nat option"
  rows :: "nat option"

definition empty_event :: event where
  "empty_event = \<lparr>commandCode = None, command = None, optionCode = None, option = None,
     buf = None, data = None, width = None, height = None, cols = None, columns = None,
     rows = None\<rparr>"

text \<open>What a handler returns: the constant \<^verbatim>\<open>MORE\<close>, or the event.\<close>

datatype outcome = MORE | Event event

type_synonym result = "(error + outcome) \<times> byte list"

type_synonym handler = "byte list \<Rightarrow> nat \<Rightarrow> event \<Rightarrow> result"

subsection \<open>Option handlers\<close>

definition NO_ARGS :: handler where
  "NO_ARGS bufs i ev =
     (let (removed, rest) = Buffers_splice bufs i
      in (Inr (Event (ev\<lparr>buf := Some removed\<rparr>)), rest))"

text \<open>\<^verbatim>\<open>word16bu\<close> of the binary package: two octets, big-endian, unsigned.\<close>

definition word16bu :: "byte \<Rightarrow> byte \<Rightarrow> nat" where
  "word16bu hi lo = unat hi * 256 + unat lo"

text \<open>
  \<^verbatim>\<open>OPTION_IMPLS[OPTIONS.WINDOW_SIZE]\<close>. Outside a subnegotiation it calls
  \<^verbatim>\<open>NO_ARGS\<close>, which assigns \<^verbatim>\<open>event.buf\<close>, and returns the event. In a
  subnegotiation the nine octets are spliced off before the fields are read and the
  assertions run, in the order of the source.
\<close>

definition option_WINDOW_SIZE :: handler where
  "option_WINDOW_SIZE bufs i ev =
     (if commandCode ev \<noteq> Some SB then NO_ARGS bufs i ev
      else if length bufs < 9 then (Inr MORE, bufs)
      else
        (let (b, rest) = Buffers_splice bufs 9;
             iac1 = b ! 0; sb = b ! 1; naws = b ! 2;
             w = word16bu (b ! 3) (b ! 4);
             h = word16bu (b ! 5) (b ! 6);
             iac2 = b ! 7; se = b ! 8
         in if iac1 \<noteq> IAC then (Inl AssertionError, rest)
            else if iac2 \<noteq> IAC then (Inl AssertionError, rest)
            else if sb \<noteq> SB then (Inl AssertionError, rest)
            else if se \<noteq> SE then (Inl AssertionError, rest)
            else if naws \<noteq> WINDOW_SIZE then (Inl AssertionError, rest)
            else (Inr (Event (ev\<lparr>buf := Some b, width := Some w, columns := Some w,
                    cols := Some w, height := Some h, rows := Some h\<rparr>)), rest)))"

text \<open>
  \<^verbatim>\<open>OPTION_IMPLS\<close>: eleven option codes share \<^verbatim>\<open>NO_ARGS\<close>, the window size has its
  own handler, and every other code has no entry (\<^verbatim>\<open>TIMING_MARK\<close>, 6, among them).
\<close>

definition OPTION_IMPLS :: "byte \<Rightarrow> handler option" where
  "OPTION_IMPLS code =
     (if code \<in> {1, 5, 34, 0, 37, 32, 24, 33, 39, 35, 3} then Some NO_ARGS
      else if code = WINDOW_SIZE then Some option_WINDOW_SIZE
      else None)"

subsection \<open>The frame parser\<close>

definition parseOption :: handler where
  "parseOption bufs i ev =
     (case Buffers_get bufs i of
        Inl e \<Rightarrow> (Inl e, bufs)
      | Inr opt \<Rightarrow>
          (let ev' = ev\<lparr>optionCode := Some opt, option := OPTION_NAMES opt\<rparr>
           in case OPTION_IMPLS opt of
                None \<Rightarrow> (Inl TypeError, bufs)
              | Some impl \<Rightarrow> impl bufs (i + 1) ev'))"

text \<open>The handler of \<^verbatim>\<open>do\<close>, \<^verbatim>\<open>dont\<close>, \<^verbatim>\<open>will\<close>, \<^verbatim>\<open>wont\<close> and \<^verbatim>\<open>sb\<close>.\<close>

definition command_option :: handler where
  "command_option bufs i ev =
     (if length bufs < i + 1 then (Inr MORE, bufs) else parseOption bufs i ev)"

text \<open>\<^verbatim>\<open>COMMAND_IMPLS[COMMANDS.IAC]\<close>: the doubled IAC.\<close>

definition command_IAC :: handler where
  "command_IAC bufs i ev =
     (let (removed, rest) = Buffers_splice bufs i
      in (Inr (Event (ev\<lparr>buf := Some removed, data := Some [255]\<rparr>)), rest))"

definition COMMAND_IMPLS :: "byte \<Rightarrow> handler option" where
  "COMMAND_IMPLS code =
     (if code \<in> {DO, DONT, WILL, WONT, SB} then Some command_option
      else if code = IAC then Some command_IAC
      else None)"

definition parseCommand :: handler where
  "parseCommand bufs i ev =
     (case Buffers_get bufs i of
        Inl e \<Rightarrow> (Inl e, bufs)
      | Inr c \<Rightarrow>
          (let ev' = ev\<lparr>commandCode := Some c, command := COMMAND_NAMES c\<rparr>
           in case COMMAND_IMPLS c of
                None \<Rightarrow> (Inl TypeError, bufs)
              | Some impl \<Rightarrow> impl bufs (i + 1) ev'))"

definition parse :: "byte list \<Rightarrow> result" where
  "parse bufs =
     (if \<not> 2 \<le> length bufs then (Inl AssertionError, bufs)
      else if Buffers_get bufs 0 \<noteq> Inr IAC then (Inl AssertionError, bufs)
      else parseCommand bufs 1 empty_event)"

subsection \<open>Option sets\<close>

text \<open>
  The four command codes of an \<^verbatim>\<open>OptionSet\<close>; \<^verbatim>\<open>serverOpts\<close> is true for the local
  side. No capability handler can be registered: the source has none.
\<close>

record optionSet =
  sendEnable :: byte
  sendDisable :: byte
  receiveEnable :: byte
  receiveDisable :: byte

definition OptionSet :: "bool \<Rightarrow> optionSet" where
  "OptionSet serverOpts =
     \<lparr>sendEnable = (if serverOpts then WILL else DO),
      sendDisable = (if serverOpts then WONT else DONT),
      receiveEnable = (if serverOpts then DO else WILL),
      receiveDisable = (if serverOpts then DONT else WONT)\<rparr>"

text \<open>
  What is handed to \<^verbatim>\<open>output.write\<close>: a \<^verbatim>\<open>Buffer\<close> of octets, or a JavaScript
  string, a sequence of UTF-16 code units.
\<close>

type_synonym jsstring = "16 word list"

datatype chunk = Buffer "byte list" | Text jsstring

text \<open>
  \<^verbatim>\<open>_handleOptions\<close>, returning the writes it makes on \<^verbatim>\<open>socket.output\<close>. The
  test \<^verbatim>\<open>if (event.option)\<close> is on the option's name: an undefined name and the empty
  string are falsy. \<^verbatim>\<open>new Buffer([.., undefined])\<close> would store 0.
\<close>

definition handleOptions :: "optionSet \<Rightarrow> event \<Rightarrow> chunk list" where
  "handleOptions os ev =
     (case option ev of
        None \<Rightarrow> []
      | Some name \<Rightarrow>
          if name = [] then []
          else if commandCode ev = Some (receiveDisable os) then []
          else if commandCode ev = Some (receiveEnable os)
            then [Buffer [IAC, sendDisable os, (case optionCode ev of Some c \<Rightarrow> c | None \<Rightarrow> 0)]]
          else [])"

subsection \<open>The socket\<close>

text \<open>
  The state of a \<^verbatim>\<open>Socket\<close>: its fields, and two logs that make its effects
  observable: \<open>emitted\<close>, the calls of \<^verbatim>\<open>self.emit(name, payload)\<close> in order, and
  \<open>written\<close>, the calls of \<^verbatim>\<open>output.write\<close> in order.
\<close>

datatype payload = Ev event | Data "byte list"

record socket =
  bufs :: "byte list"
  convertLF :: bool
  local_options :: optionSet
  remote_options :: optionSet
  emitted :: "(string \<times> payload) list"
  written :: "chunk list"

definition Socket :: socket where
  "Socket = \<lparr>bufs = [], convertLF = True, local_options = OptionSet True,
     remote_options = OptionSet False, emitted = [], written = []\<rparr>"

text \<open>
  \<^verbatim>\<open>self.emit(name, payload)\<close>. The two option sets listen for \<^verbatim>\<open>'event'\<close>, the
  local one registered first.
\<close>

definition emit :: "socket \<Rightarrow> string \<Rightarrow> payload \<Rightarrow> socket" where
  "emit st name p =
     (let st' = st\<lparr>emitted := emitted st @ [(name, p)]\<rparr>
      in case p of
           Ev ev \<Rightarrow>
             if name = ''event''
             then st'\<lparr>written := written st' @ handleOptions (local_options st') ev
                                    @ handleOptions (remote_options st') ev\<rparr>
             else st'
         | Data d \<Rightarrow> st')"

text \<open>The \<^verbatim>\<open>else\<close> branch of the input handler's loop: the emits for one event.\<close>

definition emit_parsed :: "socket \<Rightarrow> event \<Rightarrow> socket" where
  "emit_parsed st ev =
     (let st1 = emit st ''event'' (Ev ev);
          st2 = (case command ev of None \<Rightarrow> st1 | Some name \<Rightarrow> emit st1 name (Ev ev));
          st3 = (case option ev of
                   None \<Rightarrow> st2
                 | Some name \<Rightarrow> if name = [] then st2 else emit st2 name (Ev ev))
      in case data ev of None \<Rightarrow> st3 | Some d \<Rightarrow> emit st3 ''data'' (Data d))"

subsection \<open>The input handler\<close>

text \<open>
  Every handler that returns an event has spliced octets off a buffer that was not
  empty, so the loop of the input handler ends.
\<close>

lemma bufs_emit: "bufs (emit st name p) = bufs st"
  by (simp add: emit_def Let_def split: payload.splits)

lemma bufs_emit_parsed: "bufs (emit_parsed st ev) = bufs st"
  by (simp add: emit_parsed_def Let_def bufs_emit split: option.splits)

lemma option_handler_shorter:
  assumes "OPTION_IMPLS opt = Some impl" and "impl bs i ev = (Inr (Event ev'), rest)"
    and "0 < i" and "bs \<noteq> []"
  shows "length rest < length bs"
  using assms
  by (auto simp: OPTION_IMPLS_def NO_ARGS_def option_WINDOW_SIZE_def Buffers_splice_def Let_def
      split: if_splits)

lemma command_handler_shorter:
  assumes "COMMAND_IMPLS c = Some impl" and "impl bs i ev = (Inr (Event ev'), rest)"
    and "0 < i" and "bs \<noteq> []"
  shows "length rest < length bs"
proof -
  from assms(1) consider "impl = command_option" | "impl = command_IAC"
    by (auto simp: COMMAND_IMPLS_def split: if_splits)
  then show ?thesis
  proof cases
    case 1
    with assms(2) obtain opt oimpl ev1 where "OPTION_IMPLS opt = Some oimpl"
      and "oimpl bs (i + 1) ev1 = (Inr (Event ev'), rest)"
      by (auto simp: command_option_def parseOption_def Buffers_get_def Let_def
          split: if_splits option.splits)
    then show ?thesis using assms(4) by (auto dest: option_handler_shorter)
  next
    case 2
    with assms(2-4) show ?thesis
      by (auto simp: command_IAC_def Buffers_splice_def)
  qed
qed

lemma parse_Event_shorter:
  assumes "parse bs = (Inr (Event ev), rest)"
  shows "length rest < length bs"
proof -
  from assms have len: "2 \<le> length bs"
    by (auto simp: parse_def split: if_splits)
  then have ne: "bs \<noteq> []" by auto
  from assms len obtain c impl ev0 where
    "COMMAND_IMPLS c = Some impl" and "impl bs (1 + 1) ev0 = (Inr (Event ev), rest)"
    by (auto simp: parse_def parseCommand_def Buffers_get_def Let_def
        split: if_splits option.splits)
  then show ?thesis using ne by (auto dest: command_handler_shorter)
qed

text \<open>
  The \<^verbatim>\<open>while\<close> loop of the input handler, after \<^verbatim>\<open>bufs.push(b)\<close>. It returns
  the exception thrown, or whether the loop variable \<^verbatim>\<open>i\<close> is \<^verbatim>\<open>MORE\<close> when the
  loop is left (by \<^verbatim>\<open>break\<close>: true; because no IAC is left: false).
\<close>

function loop :: "socket \<Rightarrow> (error + bool) \<times> socket" where
  "loop st =
     (case Buffers_indexOf (bufs st) IAC of
        None \<Rightarrow> (Inr False, st)
      | Some i \<Rightarrow>
          if \<not> i + 1 < length (bufs st) then (Inl AssertionError, st)
          else
            (let st1 = (if 0 < i
                        then (let (removed, rest) = Buffers_splice (bufs st) i
                              in emit (st\<lparr>bufs := rest\<rparr>) ''data'' (Data removed))
                        else st)
             in case parse (bufs st1) of
                  (Inl e, rest) \<Rightarrow> (Inl e, st1\<lparr>bufs := rest\<rparr>)
                | (Inr MORE, rest) \<Rightarrow> (Inr True, st1\<lparr>bufs := rest\<rparr>)
                | (Inr (Event ev), rest) \<Rightarrow> loop (emit_parsed (st1\<lparr>bufs := rest\<rparr>) ev)))"
  by pat_completeness auto
termination
proof (relation "measure (\<lambda>st. length (bufs st))", goal_cases)
  case 1
  show ?case by simp
next
  case (2 st i st1 res rest e ev)
  from 2(3) have "length (bufs st1) \<le> length (bufs st)"
    by (auto simp: bufs_emit Buffers_splice_def split: if_splits)
  moreover from 2 have "parse (bufs st1) = (Inr (Event ev), rest)"
    by simp
  then have "length rest < length (bufs st1)"
    by (rule parse_Event_shorter)
  ultimately show ?case by (simp add: bufs_emit_parsed)
qed

declare loop.simps [simp del]

text \<open>
  The listener of the input's \<^verbatim>\<open>'data'\<close>: one delivery \<open>b\<close> of the transport. An
  exception leaves the handler with the state as it is at the throw.
\<close>

definition on_data :: "socket \<Rightarrow> byte list \<Rightarrow> error option \<times> socket" where
  "on_data st b =
     (case loop (st\<lparr>bufs := bufs st @ b\<rparr>) of
        (Inl e, st') \<Rightarrow> (Some e, st')
      | (Inr wait, st') \<Rightarrow>
          (None,
           if \<not> wait \<and> 0 < length (bufs st')
           then (let (removed, rest) = Buffers_splice (bufs st') (length (bufs st'))
                 in emit (st'\<lparr>bufs := rest\<rparr>) ''data'' (Data removed))
           else st'))"

text \<open>
  Deliveries in sequence. An exception that leaves the handler is not caught anywhere
  in the source: no later delivery is processed.
\<close>

fun deliver :: "socket \<Rightarrow> byte list list \<Rightarrow> error option \<times> socket" where
  "deliver st [] = (None, st)"
| "deliver st (b # bs) =
     (case on_data st b of
        (Some e, st') \<Rightarrow> (Some e, st')
      | (None, st') \<Rightarrow> deliver st' bs)"

subsection \<open>Writing\<close>

text \<open>
  The platform, not the repository: \<^verbatim>\<open>buffer.toString('utf8')\<close> decodes octets as
  UTF-8 into a string of UTF-16 code units, an octet that is part of no well-formed
  sequence giving U+FFFD (65533); a string written to a stream is encoded as UTF-8.
  The decoder below is the one of the WHATWG Encoding Standard, which Node.js follows:
  \<open>cp\<close> is the code point so far, the second argument the continuation octets still
  needed, \<open>lo\<close> and \<open>hi\<close> the range allowed for the next octet. An octet that does not
  continue a sequence ends it with U+FFFD and is read again as the start of the next one.
\<close>

fun utf8_decode_from :: "nat \<Rightarrow> nat \<Rightarrow> nat \<Rightarrow> nat \<Rightarrow> byte list \<Rightarrow> nat list" where
  "utf8_decode_from cp 0 lo hi [] = []"
| "utf8_decode_from cp (Suc n) lo hi [] = [65533]"
| "utf8_decode_from cp 0 lo hi (b # bs) =
     (let x = unat b in
      if x \<le> 127 then x # utf8_decode_from 0 0 128 191 bs
      else if 194 \<le> x \<and> x \<le> 223 then utf8_decode_from (x mod 32) 1 128 191 bs
      else if 224 \<le> x \<and> x \<le> 239
        then utf8_decode_from (x mod 16) 2 (if x = 224 then 160 else 128)
               (if x = 237 then 159 else 191) bs
      else if 240 \<le> x \<and> x \<le> 244
        then utf8_decode_from (x mod 8) 3 (if x = 240 then 144 else 128)
               (if x = 244 then 143 else 191) bs
      else 65533 # utf8_decode_from 0 0 128 191 bs)"
| "utf8_decode_from cp (Suc n) lo hi (b # bs) =
     (let x = unat b in
      if x < lo \<or> hi < x then 65533 # utf8_decode_from 0 0 128 191 (b # bs)
      else if n = 0 then (cp * 64 + x mod 64) # utf8_decode_from 0 0 128 191 bs
      else utf8_decode_from (cp * 64 + x mod 64) n 128 191 bs)"

text \<open>A code point as UTF-16: itself, or a surrogate pair above the basic plane.\<close>

definition utf16_units :: "nat \<Rightarrow> jsstring" where
  "utf16_units cp =
     (if cp < 65536 then [of_nat cp]
      else [of_nat (55296 + (cp - 65536) div 1024), of_nat (56320 + (cp - 65536) mod 1024)])"

definition utf8_decode :: "byte list \<Rightarrow> jsstring" where
  "utf8_decode bs = concat (map utf16_units (utf8_decode_from 0 0 128 191 bs))"

text \<open>
  \<^verbatim>\<open>b.toString('utf8')\<close>: a string is returned as it is (the argument is ignored), a
  \<^verbatim>\<open>Buffer\<close> is decoded.
\<close>

fun toString_utf8 :: "chunk \<Rightarrow> jsstring" where
  "toString_utf8 (Text s) = s"
| "toString_utf8 (Buffer bs) = utf8_decode bs"

text \<open>The octets a written chunk puts on the wire; a lone surrogate is sent as U+FFFD.\<close>

fun utf8_encode :: "jsstring \<Rightarrow> byte list" where
  "utf8_encode [] = []"
| "utf8_encode [u] =
     (let c = unat u in
      if c < 128 then [of_nat c]
      else if c < 2048 then [of_nat (192 + c div 64), of_nat (128 + c mod 64)]
      else if 55296 \<le> c \<and> c < 57344 then [239, 191, 189]
      else [of_nat (224 + c div 4096), of_nat (128 + c div 64 mod 64), of_nat (128 + c mod 64)])"
| "utf8_encode (u # v # us) =
     (let c = unat u; d = unat v in
      if c < 128 then of_nat c # utf8_encode (v # us)
      else if c < 2048
        then of_nat (192 + c div 64) # of_nat (128 + c mod 64) # utf8_encode (v # us)
      else if 55296 \<le> c \<and> c < 56320 \<and> 56320 \<le> d \<and> d < 57344
        then (let cp = 65536 + (c - 55296) * 1024 + (d - 56320)
              in of_nat (240 + cp div 262144) # of_nat (128 + cp div 4096 mod 64)
                 # of_nat (128 + cp div 64 mod 64) # of_nat (128 + cp mod 64)
                 # utf8_encode us)
      else if 55296 \<le> c \<and> c < 57344 then 239 # 191 # 189 # utf8_encode (v # us)
      else of_nat (224 + c div 4096) # of_nat (128 + c div 64 mod 64)
           # of_nat (128 + c mod 64) # utf8_encode (v # us))"

fun wire :: "chunk \<Rightarrow> byte list" where
  "wire (Buffer bs) = bs"
| "wire (Text s) = utf8_encode s"

text \<open>
  \<^verbatim>\<open>.replace(/\r?\n/g, '\r\n')\<close> on the code units of a string: scanning from the left,
  a CR (13) followed by LF (10) is one match, a LF not so preceded is one match, and
  every match is replaced by CR LF.
\<close>

abbreviation CR :: "16 word" where "CR \<equiv> 13"
abbreviation LF :: "16 word" where "LF \<equiv> 10"

fun replace_newlines :: "jsstring \<Rightarrow> jsstring" where
  "replace_newlines [] = []"
| "replace_newlines [x] = (if x = LF then [CR, LF] else [x])"
| "replace_newlines (x # y # zs) =
     (if x = CR \<and> y = LF then CR # LF # replace_newlines zs
      else if x = LF then CR # LF # replace_newlines (y # zs)
      else x # replace_newlines (y # zs))"

text \<open>
  \<^verbatim>\<open>Socket.prototype.write\<close>. The file has no \<^verbatim>\<open>'use strict'\<close>, so the
  \<^verbatim>\<open>arguments\<close> object of the function shares its first element with the parameter
  \<^verbatim>\<open>b\<close> (ECMAScript 5.1, 10.6): after the assignment to \<^verbatim>\<open>b\<close>,
  \<^verbatim>\<open>arguments[0]\<close> is the new value, and
  \<^verbatim>\<open>this.output.write.apply(this.output, arguments)\<close> writes that value. With
  \<^verbatim>\<open>convertLF\<close> unset the argument is written as it is.
\<close>

definition Socket_write :: "socket \<Rightarrow> chunk \<Rightarrow> socket" where
  "Socket_write st b =
     (let b' = (if convertLF st then Text (replace_newlines (toString_utf8 b)) else b)
      in st\<lparr>written := written st @ [b']\<rparr>)"

section \<open>Specified behaviour\<close>

text \<open>
  The line-ending normalization in the words of the specification (``converts any lone
  or CRLF newline to CRLF''): the text is cut at every LF, a CR that ends a piece
  before a LF belongs to the newline, and the pieces are joined with CR LF.
\<close>

fun split_on :: "'a \<Rightarrow> 'a list \<Rightarrow> 'a list list" where
  "split_on c [] = [[]]"
| "split_on c (x # xs) =
     (if x = c then [] # split_on c xs
      else (case split_on c xs of [] \<Rightarrow> [[x]] | l # ls \<Rightarrow> (x # l) # ls))"

definition chomp_CR :: "jsstring \<Rightarrow> jsstring" where
  "chomp_CR l = (if l \<noteq> [] \<and> last l = CR then butlast l else l)"

fun join_CRLF :: "jsstring list \<Rightarrow> jsstring" where
  "join_CRLF [] = []"
| "join_CRLF [l] = l"
| "join_CRLF (l # m # ls) = l @ [CR, LF] @ join_CRLF (m # ls)"

definition join_pieces :: "jsstring list \<Rightarrow> jsstring" where
  "join_pieces ps = join_CRLF (map chomp_CR (butlast ps) @ [last ps])"

definition normalize_newlines :: "jsstring \<Rightarrow> jsstring" where
  "normalize_newlines s = join_pieces (split_on LF s)"

text \<open>The events the specification describes, as values.\<close>

definition iac_event :: event where
  "iac_event = \<lparr>commandCode = Some IAC, command = Some ''iac'', optionCode = None,
     option = None, buf = Some [IAC, IAC], data = Some [255], width = None, height = None,
     cols = None, columns = None, rows = None\<rparr>"

definition negotiation_event :: "byte \<Rightarrow> byte \<Rightarrow> event" where
  "negotiation_event cmd opt = \<lparr>commandCode = Some cmd, command = COMMAND_NAMES cmd,
     optionCode = Some opt, option = OPTION_NAMES opt, buf = Some [IAC, cmd, opt],
     data = None, width = None, height = None, cols = None, columns = None, rows = None\<rparr>"

text \<open>The window-size frame for a width and a height, and its event.\<close>

definition naws_frame :: "nat \<Rightarrow> nat \<Rightarrow> byte list" where
  "naws_frame w h = [IAC, SB, WINDOW_SIZE, of_nat (w div 256), of_nat (w mod 256),
     of_nat (h div 256), of_nat (h mod 256), IAC, SE]"

definition naws_event :: "nat \<Rightarrow> nat \<Rightarrow> event" where
  "naws_event w h = \<lparr>commandCode = Some SB, command = Some ''sb'',
     optionCode = Some WINDOW_SIZE, option = Some ''window size'',
     buf = Some (naws_frame w h), data = None, width = Some w, height = Some h,
     cols = Some w, columns = Some w, rows = Some h\<rparr>"

text \<open>The boundary markers of a window-size frame.\<close>

definition naws_markers_ok :: "byte list \<Rightarrow> bool" where
  "naws_markers_ok bs \<longleftrightarrow>
     bs ! 0 = IAC \<and> bs ! 1 = SB \<and> bs ! 2 = WINDOW_SIZE \<and> bs ! 7 = IAC \<and> bs ! 8 = SE"

text \<open>A socket as constructed, with nothing pending.\<close>

definition idle :: "socket \<Rightarrow> bool" where
  "idle st \<longleftrightarrow>
     bufs st = [] \<and> local_options st = OptionSet True \<and> remote_options st = OptionSet False"

text \<open>The option codes that have an entry in \<^verbatim>\<open>OPTION_IMPLS\<close>.\<close>

definition decoded_options :: "byte set" where
  "decoded_options = {0, 1, 3, 5, 24, 31, 32, 33, 34, 35, 37, 39}"


text \<open>The default policy: what is written in reply to a negotiation command.\<close>

definition replies :: "byte \<Rightarrow> byte \<Rightarrow> chunk list" where
  "replies cmd opt =
     (if cmd = DO then [Buffer [IAC, WONT, opt]]
      else if cmd = WILL then [Buffer [IAC, DONT, opt]] else [])"

section \<open>Properties\<close>

subsection \<open>The tables, evaluated\<close>

lemma COMMAND_NAMES_table:
  "COMMAND_NAMES = map_of
    [(240, ''se''), (241, ''nop''), (242, ''dm''), (243, ''brk''), (244, ''ip''),
     (245, ''ao''), (246, ''ayt''), (247, ''ec''), (248, ''el''), (249, ''ga''),
     (250, ''sb''), (251, ''will''), (252, ''wont''), (253, ''do''), (254, ''dont''),
     (255, ''iac'')]"
proof -
  have "map (\<lambda>(name, code). (code, toLowerCase name)) COMMANDS =
    [(240, ''se''), (241, ''nop''), (242, ''dm''), (243, ''brk''), (244, ''ip''),
     (245, ''ao''), (246, ''ayt''), (247, ''ec''), (248, ''el''), (249, ''ga''),
     (250, ''sb''), (251, ''will''), (252, ''wont''), (253, ''do''), (254, ''dont''),
     (255, ''iac'')]"
    by code_simp
  then show ?thesis by (simp only: COMMAND_NAMES_def)
qed

lemma OPTION_NAMES_table:
  "OPTION_NAMES = map_of
    [(0, ''transmit binary''), (1, ''echo''), (3, ''suppress go ahead''), (5, ''status''),
     (6, ''timing mark''), (24, ''terminal type''), (31, ''window size''),
     (32, ''terminal speed''), (33, ''remote flow control''), (34, ''linemode''),
     (35, ''x display location''), (37, ''authentication''),
     (39, ''environment variables'')]"
proof -
  have "map (\<lambda>(name, code). (code, underscores_to_spaces (toLowerCase name))) OPTIONS =
    [(0, ''transmit binary''), (1, ''echo''), (3, ''suppress go ahead''), (5, ''status''),
     (6, ''timing mark''), (24, ''terminal type''), (31, ''window size''),
     (32, ''terminal speed''), (33, ''remote flow control''), (34, ''linemode''),
     (35, ''x display location''), (37, ''authentication''),
     (39, ''environment variables'')]"
    by code_simp
  then show ?thesis by (simp only: OPTION_NAMES_def)
qed

lemmas parser_defs = parse_def parseCommand_def parseOption_def command_option_def
  command_IAC_def COMMAND_IMPLS_def OPTION_IMPLS_def NO_ARGS_def option_WINDOW_SIZE_def
  Buffers_get_def Buffers_splice_def empty_event_def

subsection \<open>Stepping the loop of the input handler\<close>

lemma indexOf_notin: "c \<notin> set xs \<Longrightarrow> Buffers_indexOf xs c = None"
  by (induction xs) auto

lemma indexOf_append: "c \<notin> set pre \<Longrightarrow> Buffers_indexOf (pre @ c # xs) c = Some (length pre)"
  by (induction pre) auto

lemma parse_ok_length:
  assumes "parse bs = (Inr r, rest)"
  shows "2 \<le> length bs"
  using assms by (auto simp: parse_def split: if_splits)

lemma loop_no_IAC: "IAC \<notin> set (bufs st) \<Longrightarrow> loop st = (Inr False, st)"
  by (simp add: loop.simps indexOf_notin)

lemma loop_Event:
  assumes "bufs st = IAC # xs" and "parse (bufs st) = (Inr (Event ev), rest)"
  shows "loop st = loop (emit_parsed (st\<lparr>bufs := rest\<rparr>) ev)"
proof -
  from assms(2) have "2 \<le> length (bufs st)" by (rule parse_ok_length)
  with assms(1) have "xs \<noteq> []" by auto
  with assms show ?thesis
    by (subst loop.simps) simp
qed

lemma loop_MORE:
  assumes "bufs st = IAC # xs" and "parse (bufs st) = (Inr MORE, rest)"
  shows "loop st = (Inr True, st\<lparr>bufs := rest\<rparr>)"
proof -
  from assms(2) have "2 \<le> length (bufs st)" by (rule parse_ok_length)
  with assms(1) have "xs \<noteq> []" by auto
  with assms show ?thesis
    by (subst loop.simps) simp
qed

lemma loop_parse_error:
  assumes "bufs st = IAC # x # xs" and "parse (bufs st) = (Inl e, rest)"
  shows "loop st = (Inl e, st\<lparr>bufs := rest\<rparr>)"
  using assms by (subst loop.simps) simp

lemma loop_IAC_last:
  assumes "bufs st = pre @ [IAC]" and "IAC \<notin> set pre"
  shows "loop st = (Inl AssertionError, st)"
  using assms by (subst loop.simps) (simp add: indexOf_append)

lemma loop_data_prefix:
  assumes "bufs st = pre @ IAC # x # xs" and "IAC \<notin> set pre" and "pre \<noteq> []"
  shows "loop st = loop (emit (st\<lparr>bufs := IAC # x # xs\<rparr>) ''data'' (Data pre))"
proof -
  let ?st1 = "emit (st\<lparr>bufs := IAC # x # xs\<rparr>) ''data'' (Data pre)"
  let ?rhs = "case parse (IAC # x # xs) of
        (Inl e, rest) \<Rightarrow> (Inl e, ?st1\<lparr>bufs := rest\<rparr>)
      | (Inr MORE, rest) \<Rightarrow> (Inr True, ?st1\<lparr>bufs := rest\<rparr>)
      | (Inr (Event ev), rest) \<Rightarrow> loop (emit_parsed (?st1\<lparr>bufs := rest\<rparr>) ev)"
  have "loop ?st1 = ?rhs"
    by (subst loop.simps) (simp add: bufs_emit Let_def)
  moreover have "loop st = ?rhs"
    using assms
    by (subst loop.simps) (simp add: indexOf_append Buffers_splice_def bufs_emit Let_def)
  ultimately show ?thesis by simp
qed

subsection \<open>Emitting\<close>

lemma emit_Data: "emit st name (Data d) = st\<lparr>emitted := emitted st @ [(name, Data d)]\<rparr>"
  by (simp add: emit_def)

subsection \<open>The doubled IAC\<close>

lemma parse_IAC_IAC: "parse (IAC # IAC # rest) = (Inr (Event iac_event), rest)"
  by (simp add: parser_defs COMMAND_NAMES_table iac_event_def)

lemma emit_parsed_iac:
  "emit_parsed st iac_event =
     st\<lparr>emitted := emitted st @
        [(''event'', Ev iac_event), (''iac'', Ev iac_event), (''data'', Data [255])]\<rparr>"
  by (simp add: emit_parsed_def emit_def handleOptions_def iac_event_def)

lemma loop_IAC_IAC:
  assumes "bufs st = IAC # IAC # post"
  shows "loop st = loop (emit_parsed (st\<lparr>bufs := post\<rparr>) iac_event)"
  using assms by (intro loop_Event) (simp_all add: parse_IAC_IAC)

text \<open>
  C8. Parsing a buffer that starts with IAC IAC gives an event whose \<open>data\<close> is the one
  octet 255 and splices exactly these two octets off the buffer. A delivery
  \<open>pre @ [IAC, IAC] @ post\<close> to a socket with nothing pending, with no other IAC in it,
  makes the socket emit the data before it (if any), the event under \<open>event\<close> and
  \<open>iac\<close>, one \<open>data\<close> event carrying the single octet 255, and the data after it (if
  any); nothing stays pending and nothing is written.
\<close>

theorem doubled_IAC_escape:
  assumes "bufs st = []" and "IAC \<notin> set pre" and "IAC \<notin> set post"
  shows "parse (IAC # IAC # rest) = (Inr (Event iac_event), rest) \<and>
         data iac_event = Some [255] \<and> buf iac_event = Some [IAC, IAC] \<and>
         on_data st (pre @ [IAC, IAC] @ post) =
           (None, st\<lparr>emitted := emitted st
               @ (if pre = [] then [] else [(''data'', Data pre)])
               @ [(''event'', Ev iac_event), (''iac'', Ev iac_event), (''data'', Data [255])]
               @ (if post = [] then [] else [(''data'', Data post)])\<rparr>)"
proof -
  let ?st0 = "st\<lparr>bufs := bufs st @ pre @ [IAC, IAC] @ post\<rparr>"
  let ?st1 = "if pre = [] then st\<lparr>bufs := IAC # IAC # post\<rparr>
              else emit (st\<lparr>bufs := IAC # IAC # post\<rparr>) ''data'' (Data pre)"
  have "loop ?st0 = loop ?st1"
  proof (cases "pre = []")
    case True
    with assms(1) show ?thesis by simp
  next
    case False
    have "loop ?st0 = loop (emit (?st0\<lparr>bufs := IAC # IAC # post\<rparr>) ''data'' (Data pre))"
      using assms False by (intro loop_data_prefix) simp_all
    with False show ?thesis by simp
  qed
  also have "\<dots> = loop (emit_parsed (?st1\<lparr>bufs := post\<rparr>) iac_event)"
    by (rule loop_IAC_IAC) (simp add: bufs_emit)
  also have "\<dots> = (Inr False, emit_parsed (?st1\<lparr>bufs := post\<rparr>) iac_event)"
    using assms(3) by (intro loop_no_IAC) (simp add: bufs_emit_parsed)
  finally have "loop ?st0 = (Inr False, emit_parsed (?st1\<lparr>bufs := post\<rparr>) iac_event)" .
  then have "on_data st (pre @ [IAC, IAC] @ post) =
           (None, st\<lparr>emitted := emitted st
               @ (if pre = [] then [] else [(''data'', Data pre)])
               @ [(''event'', Ev iac_event), (''iac'', Ev iac_event), (''data'', Data [255])]
               @ (if post = [] then [] else [(''data'', Data post)])\<rparr>)"
    using assms(1)
    by (simp add: on_data_def emit_parsed_iac emit_Data Buffers_splice_def)
  then show ?thesis by (simp add: parse_IAC_IAC) (simp add: iac_event_def)
qed

theorem doubled_IAC_escape_witness:
  "on_data Socket [97, IAC, IAC, 98] =
     (None, Socket\<lparr>emitted := [(''data'', Data [97]), (''event'', Ev iac_event),
        (''iac'', Ev iac_event), (''data'', Data [255]), (''data'', Data [98])]\<rparr>)"
  using doubled_IAC_escape [of Socket "[97]" "[98]" "[]"]
  by (simp add: Socket_def)

subsection \<open>The window size\<close>

lemma on_data_one_frame:
  assumes "bufs st = []" and "parse (IAC # xs) = (Inr (Event ev), [])"
  shows "on_data st (IAC # xs) = (None, emit_parsed st ev)"
proof -
  let ?st0 = "st\<lparr>bufs := bufs st @ IAC # xs\<rparr>"
  have st: "?st0\<lparr>bufs := []\<rparr> = st"
    using assms(1) by (cases st) simp
  have "loop ?st0 = loop (emit_parsed (?st0\<lparr>bufs := []\<rparr>) ev)"
    using assms by (intro loop_Event) simp_all
  also have "\<dots> = (Inr False, emit_parsed st ev)"
    unfolding st using assms(1) by (intro loop_no_IAC) (simp add: bufs_emit_parsed)
  finally show ?thesis
    using assms(1) by (simp add: on_data_def bufs_emit_parsed)
qed

lemma word16bu_of_nat:
  assumes "w < 65536"
  shows "word16bu (of_nat (w div 256)) (of_nat (w mod 256)) = w"
proof -
  from assms have "w div 256 < 256" by simp
  then show ?thesis by (simp add: word16bu_def unat_of_nat)
qed

lemma parse_naws_frame:
  assumes "w < 65536" and "h < 65536"
  shows "parse (naws_frame w h @ rest) = (Inr (Event (naws_event w h)), rest)"
  using assms
  by (simp add: parser_defs COMMAND_NAMES_table OPTION_NAMES_table naws_frame_def naws_event_def
      word16bu_of_nat Let_def)

lemma parse_SB_MORE:
  assumes "2 \<le> length bs" and "length bs < 9" and "bs ! 0 = IAC" and "bs ! 1 = SB"
    and "3 \<le> length bs \<longrightarrow> bs ! 2 = WINDOW_SIZE"
  shows "parse bs = (Inr MORE, bs)"
  using assms
  by (auto simp add: parser_defs numeral_2_eq_2[symmetric] Let_def)

lemma emit_parsed_naws:
  assumes "local_options st = OptionSet True" and "remote_options st = OptionSet False"
  shows "emit_parsed st (naws_event w h) =
     st\<lparr>emitted := emitted st @ [(''event'', Ev (naws_event w h)), (''sb'', Ev (naws_event w h)),
        (''window size'', Ev (naws_event w h))]\<rparr>"
  using assms
  by (simp add: emit_parsed_def emit_def handleOptions_def naws_event_def OptionSet_def)

text \<open>
  C7. For every width and height below 65536 the frame IAC SB 31 w-hi w-lo h-hi h-lo IAC SE
  has nine octets; parsing a buffer that starts with it gives the event whose \<open>width\<close>
  and \<open>height\<close> are these numbers (the octet pairs read big-endian, unsigned) and splices
  exactly the nine octets off; a buffer holding only the first \<open>n\<close> octets of the frame
  (parse needs two) gives \<^verbatim>\<open>MORE\<close> and stays as it is; and delivering the frame to a
  socket with nothing pending emits this one event, under \<open>event\<close>, \<open>sb\<close> and
  \<open>window size\<close>, and nothing else.
\<close>

theorem window_size_decode:
  assumes "w < 65536" and "h < 65536"
  shows "length (naws_frame w h) = 9 \<and>
         parse (naws_frame w h @ rest) = (Inr (Event (naws_event w h)), rest) \<and>
         width (naws_event w h) = Some w \<and> height (naws_event w h) = Some h \<and>
         (\<forall>n. 2 \<le> n \<and> n < 9 \<longrightarrow>
              parse (take n (naws_frame w h)) = (Inr MORE, take n (naws_frame w h))) \<and>
         (idle st \<longrightarrow> on_data st (naws_frame w h) =
            (None, st\<lparr>emitted := emitted st @ [(''event'', Ev (naws_event w h)),
               (''sb'', Ev (naws_event w h)), (''window size'', Ev (naws_event w h))]\<rparr>))"
proof -
  have p: "parse (naws_frame w h @ rest) = (Inr (Event (naws_event w h)), rest)" for rest
    using assms by (rule parse_naws_frame)
  have m: "parse (take n (naws_frame w h)) = (Inr MORE, take n (naws_frame w h))"
    if "2 \<le> n \<and> n < 9" for n
  proof (rule parse_SB_MORE)
    show "2 \<le> length (take n (naws_frame w h))" using that by (simp add: naws_frame_def)
    show "length (take n (naws_frame w h)) < 9" using that by (simp add: naws_frame_def)
    show "take n (naws_frame w h) ! 0 = IAC" using that by (simp add: naws_frame_def)
    show "take n (naws_frame w h) ! 1 = SB" using that by (simp add: naws_frame_def)
    show "3 \<le> length (take n (naws_frame w h)) \<longrightarrow> take n (naws_frame w h) ! 2 = WINDOW_SIZE"
      using that by (simp add: naws_frame_def)
  qed
  have d: "on_data st (naws_frame w h) =
            (None, st\<lparr>emitted := emitted st @ [(''event'', Ev (naws_event w h)),
               (''sb'', Ev (naws_event w h)), (''window size'', Ev (naws_event w h))]\<rparr>)"
    if "idle st"
  proof -
    obtain xs where xs: "naws_frame w h = IAC # xs" by (simp add: naws_frame_def)
    from p [of "[]"] xs have "parse (IAC # xs) = (Inr (Event (naws_event w h)), [])" by simp
    with that have "on_data st (IAC # xs) = (None, emit_parsed st (naws_event w h))"
      by (intro on_data_one_frame) (simp_all add: idle_def)
    with that xs show ?thesis by (simp add: emit_parsed_naws idle_def)
  qed
  show ?thesis using p m d by (simp add: naws_frame_def naws_event_def)
qed

theorem window_size_decode_witness:
  "parse [IAC, SB, 31, 0, 80, 0, 24, IAC, SE] = (Inr (Event (naws_event 80 24)), []) \<and>
   width (naws_event 80 24) = Some 80 \<and> height (naws_event 80 24) = Some 24 \<and>
   parse [IAC, SB, 31, 0, 80, 0, 24, IAC] = (Inr MORE, [IAC, SB, 31, 0, 80, 0, 24, IAC]) \<and>
   on_data Socket [IAC, SB, 31, 0, 80, 0, 24, IAC, SE] =
     (None, Socket\<lparr>emitted := [(''event'', Ev (naws_event 80 24)), (''sb'', Ev (naws_event 80 24)),
         (''window size'', Ev (naws_event 80 24))]\<rparr>)"
proof -
  have i: "idle Socket" by (simp add: idle_def Socket_def)
  have f: "naws_frame 80 24 = [IAC, SB, 31, 0, 80, 0, 24, IAC, SE]" by (simp add: naws_frame_def)
  have "(80::nat) < 65536" and "(24::nat) < 65536" by simp_all
  from window_size_decode [OF this, of "[]" Socket] i
  have *: "parse (naws_frame 80 24) = (Inr (Event (naws_event 80 24)), [])"
     "width (naws_event 80 24) = Some 80" "height (naws_event 80 24) = Some 24"
     "\<forall>n. 2 \<le> n \<and> n < 9 \<longrightarrow>
              parse (take n (naws_frame 80 24)) = (Inr MORE, take n (naws_frame 80 24))"
     "on_data Socket (naws_frame 80 24) =
            (None, Socket\<lparr>emitted := emitted Socket @ [(''event'', Ev (naws_event 80 24)),
               (''sb'', Ev (naws_event 80 24)), (''window size'', Ev (naws_event 80 24))]\<rparr>)"
    by simp_all
  from *(4) have "parse (take 8 (naws_frame 80 24)) = (Inr MORE, take 8 (naws_frame 80 24))"
    by simp
  with * show ?thesis by (simp add: f) (simp add: Socket_def)
qed

lemma option_WINDOW_SIZE_SB:
  assumes "9 \<le> length bs" and "commandCode ev = Some SB"
  shows "option_WINDOW_SIZE bs i ev =
     (if naws_markers_ok bs
      then (Inr (Event (ev\<lparr>buf := Some (take 9 bs),
              width := Some (word16bu (bs ! 3) (bs ! 4)),
              columns := Some (word16bu (bs ! 3) (bs ! 4)),
              cols := Some (word16bu (bs ! 3) (bs ! 4)),
              height := Some (word16bu (bs ! 5) (bs ! 6)),
              rows := Some (word16bu (bs ! 5) (bs ! 6))\<rparr>)), drop 9 bs)
      else (Inl AssertionError, drop 9 bs))"
  using assms
  by (auto simp add: option_WINDOW_SIZE_def Buffers_splice_def naws_markers_ok_def Let_def)

lemma parse_SB_WINDOW_SIZE:
  assumes "3 \<le> length bs" and "bs ! 0 = IAC" and "bs ! 1 = SB" and "bs ! 2 = WINDOW_SIZE"
  shows "parse bs = option_WINDOW_SIZE bs 3
           (empty_event\<lparr>commandCode := Some SB, command := Some ''sb'',
              optionCode := Some WINDOW_SIZE, option := Some ''window size''\<rparr>)"
proof -
  from assms(1) have "bs \<noteq> []" by auto
  with assms show ?thesis
    by (simp add: parse_def parseCommand_def parseOption_def command_option_def COMMAND_IMPLS_def
        OPTION_IMPLS_def Buffers_get_def COMMAND_NAMES_table OPTION_NAMES_table
        numeral_2_eq_2[symmetric] numeral_3_eq_3[symmetric])
qed

text \<open>
  C9. When the window-size handler runs in a subnegotiation on a buffer of at least nine
  octets, it throws the assertion error exactly when a boundary marker does not match
  (octet 0 is not IAC, octet 1 is not SB, octet 2 is not 31, octet 7 is not IAC, or
  octet 8 is not SE), and it returns an event exactly when they all match. The same
  holds of \<open>parse\<close> on a buffer that it dispatches to this handler.
\<close>

theorem malformed_window_size_frame:
  assumes "9 \<le> length bs" and "commandCode ev = Some SB"
  shows "(fst (option_WINDOW_SIZE bs i ev) = Inl AssertionError \<longleftrightarrow> \<not> naws_markers_ok bs) \<and>
         (naws_markers_ok bs \<longleftrightarrow> (\<exists>ev'. fst (option_WINDOW_SIZE bs i ev) = Inr (Event ev'))) \<and>
         (bs ! 0 = IAC \<and> bs ! 1 = SB \<and> bs ! 2 = WINDOW_SIZE \<longrightarrow>
            (fst (parse bs) = Inl AssertionError \<longleftrightarrow> \<not> naws_markers_ok bs) \<and>
            (naws_markers_ok bs \<longleftrightarrow> (\<exists>ev'. fst (parse bs) = Inr (Event ev'))))"
proof -
  have h: "(fst (option_WINDOW_SIZE bs j e) = Inl AssertionError \<longleftrightarrow> \<not> naws_markers_ok bs) \<and>
         (naws_markers_ok bs \<longleftrightarrow> (\<exists>ev'. fst (option_WINDOW_SIZE bs j e) = Inr (Event ev')))"
    if "commandCode e = Some SB" for j e
    using assms(1) that by (simp add: option_WINDOW_SIZE_SB)
  have "(fst (parse bs) = Inl AssertionError \<longleftrightarrow> \<not> naws_markers_ok bs) \<and>
        (naws_markers_ok bs \<longleftrightarrow> (\<exists>ev'. fst (parse bs) = Inr (Event ev')))"
    if "bs ! 0 = IAC \<and> bs ! 1 = SB \<and> bs ! 2 = WINDOW_SIZE"
  proof -
    from assms(1) that have "parse bs = option_WINDOW_SIZE bs 3
           (empty_event\<lparr>commandCode := Some SB, command := Some ''sb'',
              optionCode := Some WINDOW_SIZE, option := Some ''window size''\<rparr>)"
      by (intro parse_SB_WINDOW_SIZE) simp_all
    moreover have "commandCode (empty_event\<lparr>commandCode := Some SB, command := Some ''sb'',
              optionCode := Some WINDOW_SIZE, option := Some ''window size''\<rparr>) = Some SB"
      by simp
    then have "(fst (option_WINDOW_SIZE bs 3 (empty_event\<lparr>commandCode := Some SB,
              command := Some ''sb'', optionCode := Some WINDOW_SIZE,
              option := Some ''window size''\<rparr>)) = Inl AssertionError
            \<longleftrightarrow> \<not> naws_markers_ok bs) \<and>
         (naws_markers_ok bs \<longleftrightarrow> (\<exists>ev'. fst (option_WINDOW_SIZE bs 3
              (empty_event\<lparr>commandCode := Some SB,
              command := Some ''sb'', optionCode := Some WINDOW_SIZE,
              option := Some ''window size''\<rparr>)) = Inr (Event ev')))"
      by (rule h)
    ultimately show ?thesis by simp
  qed
  with h [OF assms(2)] show ?thesis by blast
qed

theorem malformed_window_size_frame_witness:
  "fst (option_WINDOW_SIZE [IAC, SB, 31, 0, 80, 0, 24, IAC, 241] 3
          (empty_event\<lparr>commandCode := Some SB\<rparr>)) = Inl AssertionError \<and>
   fst (parse [IAC, SB, 31, 0, 80, 0, 24, 0, SE]) = Inl AssertionError \<and>
   (\<exists>ev'. fst (parse [IAC, SB, 31, 0, 80, 0, 24, IAC, SE]) = Inr (Event ev'))"
proof -
  have 1: "\<not> naws_markers_ok [IAC, SB, 31, 0, 80, 0, 24, IAC, 241]"
    and 2: "\<not> naws_markers_ok [IAC, SB, 31, 0, 80, 0, 24, 0, SE]"
    and 3: "naws_markers_ok [IAC, SB, 31, 0, 80, 0, 24, IAC, SE]"
    by (simp_all add: naws_markers_ok_def)
  have c: "commandCode (empty_event\<lparr>commandCode := Some SB\<rparr>) = Some SB" by simp
  show ?thesis
    using malformed_window_size_frame [of "[IAC, SB, 31, 0, 80, 0, 24, IAC, 241]" _ 3, OF _ c]
      malformed_window_size_frame [of "[IAC, SB, 31, 0, 80, 0, 24, 0, SE]" _ 3, OF _ c]
      malformed_window_size_frame [of "[IAC, SB, 31, 0, 80, 0, 24, IAC, SE]" _ 3, OF _ c]
      1 2 3
    by simp
qed

subsection \<open>The parser and the buffer\<close>

lemma COMMAND_IMPLS_option:
  "cmd \<in> {DO, DONT, WILL, WONT, SB} \<Longrightarrow> COMMAND_IMPLS cmd = Some command_option"
  by (simp add: COMMAND_IMPLS_def)

lemma OPTION_IMPLS_None: "OPTION_IMPLS opt = None \<longleftrightarrow> opt \<notin> decoded_options"
  by (auto simp add: OPTION_IMPLS_def decoded_options_def)

lemma OPTION_IMPLS_NO_ARGS:
  "opt \<in> decoded_options \<Longrightarrow> opt \<noteq> WINDOW_SIZE \<Longrightarrow> OPTION_IMPLS opt = Some NO_ARGS"
  by (auto simp add: OPTION_IMPLS_def decoded_options_def)

lemma OPTION_IMPLS_WINDOW_SIZE: "OPTION_IMPLS WINDOW_SIZE = Some option_WINDOW_SIZE"
  by (simp add: OPTION_IMPLS_def)

lemma parse_negotiation:
  assumes "cmd \<in> {DO, DONT, WILL, WONT}" and "opt \<in> decoded_options"
  shows "parse (IAC # cmd # opt # rest) = (Inr (Event (negotiation_event cmd opt)), rest)"
proof -
  from assms(1) have c: "COMMAND_IMPLS cmd = Some command_option" and sb: "cmd \<noteq> SB"
    by (auto simp add: COMMAND_IMPLS_def)
  have "parse (IAC # cmd # opt # rest) =
      parseOption (IAC # cmd # opt # rest) 2
        (empty_event\<lparr>commandCode := Some cmd, command := COMMAND_NAMES cmd\<rparr>)"
    by (simp add: parse_def parseCommand_def Buffers_get_def c command_option_def
        numeral_2_eq_2[symmetric])
  also have "\<dots> = (Inr (Event (negotiation_event cmd opt)), rest)"
  proof (cases "opt = WINDOW_SIZE")
    case True
    with sb show ?thesis
      by (simp add: parseOption_def Buffers_get_def OPTION_IMPLS_WINDOW_SIZE
          option_WINDOW_SIZE_def NO_ARGS_def Buffers_splice_def negotiation_event_def
          empty_event_def)
  next
    case False
    with assms(2) have "OPTION_IMPLS opt = Some NO_ARGS" by (rule OPTION_IMPLS_NO_ARGS)
    then show ?thesis
      by (simp add: parseOption_def Buffers_get_def NO_ARGS_def Buffers_splice_def
          negotiation_event_def empty_event_def)
  qed
  finally show ?thesis .
qed

text \<open>
  C3, as the code has it. The result of \<open>parse\<close> is determined by the contents of the
  buffer. When \<open>parse\<close> returns \<^verbatim>\<open>MORE\<close>, it leaves the buffer as it is. When it
  returns an event, \<open>parse\<close> itself has spliced the consumed octets off the front of the
  buffer: they are the event's \<open>buf\<close>, at least one octet, and the buffer it was given
  is \<open>buf\<close> followed by the buffer it leaves, which therefore differs. When it throws,
  the buffer is as it was, except that a failed validation of a window-size frame
  (the assertion error on a buffer that meets the preconditions) has already spliced
  the nine octets off. The input handler removes no octet of a frame: on
  \<^verbatim>\<open>MORE\<close> it stops with the state as it is, on an event it goes on with the
  buffer as \<open>parse\<close> left it, and on an exception it is left with that buffer.
\<close>

theorem parse_splices_consumed_octets:
  assumes "parse bs = (r, rest)"
  shows "(r = Inr MORE \<longrightarrow> rest = bs) \<and>
         (\<forall>ev. r = Inr (Event ev) \<longrightarrow>
            (\<exists>raw. buf ev = Some raw \<and> raw \<noteq> [] \<and> bs = raw @ rest \<and> rest \<noteq> bs)) \<and>
         (\<forall>e. r = Inl e \<longrightarrow>
            (if e = AssertionError \<and> 2 \<le> length bs \<and> bs ! 0 = IAC
             then 9 \<le> length bs \<and> rest = drop 9 bs else rest = bs)) \<and>
         (\<forall>st. bufs st = bs \<and> 2 \<le> length bs \<and> bs ! 0 = IAC \<longrightarrow>
            (r = Inr MORE \<longrightarrow> loop st = (Inr True, st)) \<and>
            (\<forall>ev. r = Inr (Event ev) \<longrightarrow>
               loop st = loop (emit_parsed (st\<lparr>bufs := rest\<rparr>) ev) \<and>
               bufs (emit_parsed (st\<lparr>bufs := rest\<rparr>) ev) = rest) \<and>
            (\<forall>e. r = Inl e \<longrightarrow> loop st = (Inl e, st\<lparr>bufs := rest\<rparr>)))"
proof -
  have ret: "(r = Inr MORE \<longrightarrow> rest = bs) \<and>
         (\<forall>ev. r = Inr (Event ev) \<longrightarrow> (\<exists>raw. buf ev = Some raw \<and> raw \<noteq> [] \<and> bs = raw @ rest))"
    using assms
    by (auto simp add: parser_defs Let_def split: if_splits)
  have ne: "rest \<noteq> bs" if "bs = raw @ rest" and "raw \<noteq> []" for raw
  proof
    assume "rest = bs"
    with that(1) have "length bs = length raw + length bs" by (metis length_append)
    with that(2) show False by simp
  qed
  have thrown: "if e = AssertionError \<and> 2 \<le> length bs \<and> bs ! 0 = IAC
             then 9 \<le> length bs \<and> rest = drop 9 bs else rest = bs" if "r = Inl e" for e
    using assms that
    by (auto simp add: parser_defs Let_def split: if_splits)
  have handler: "(r = Inr MORE \<longrightarrow> loop st = (Inr True, st)) \<and>
            (\<forall>ev. r = Inr (Event ev) \<longrightarrow>
               loop st = loop (emit_parsed (st\<lparr>bufs := rest\<rparr>) ev) \<and>
               bufs (emit_parsed (st\<lparr>bufs := rest\<rparr>) ev) = rest) \<and>
            (\<forall>e. r = Inl e \<longrightarrow> loop st = (Inl e, st\<lparr>bufs := rest\<rparr>))"
    if st: "bufs st = bs \<and> 2 \<le> length bs \<and> bs ! 0 = IAC" for st
  proof -
    from st obtain x xs where bs: "bs = IAC # x # xs"
      by (cases bs; cases "tl bs") auto
    with st have b: "bufs st = IAC # x # xs" by simp
    have p: "parse (bufs st) = (r, rest)" using assms st by simp
    have 1: "loop st = (Inr True, st)" if "r = Inr MORE"
    proof -
      from that ret have "rest = bs" by simp
      with st have "st\<lparr>bufs := rest\<rparr> = st" by (cases st) simp
      moreover from b p that have "loop st = (Inr True, st\<lparr>bufs := rest\<rparr>)"
        by (intro loop_MORE) simp_all
      ultimately show ?thesis by simp
    qed
    have 2: "loop st = loop (emit_parsed (st\<lparr>bufs := rest\<rparr>) ev)" if "r = Inr (Event ev)" for ev
      using b p that by (intro loop_Event) simp_all
    have 3: "loop st = (Inl e, st\<lparr>bufs := rest\<rparr>)" if "r = Inl e" for e
      using b p that by (intro loop_parse_error) simp_all
    from 1 2 3 show ?thesis by (simp add: bufs_emit_parsed)
  qed
  from ret ne thrown handler show ?thesis by blast
qed

theorem parse_splices_consumed_octets_witness:
  "(\<exists>raw. buf (negotiation_event DO WINDOW_SIZE) = Some raw \<and> raw \<noteq> [] \<and>
      [IAC, DO, WINDOW_SIZE, 97] = raw @ [97] \<and> [97] \<noteq> [IAC, DO, WINDOW_SIZE, 97]) \<and>
   loop (Socket\<lparr>bufs := [IAC, DO, WINDOW_SIZE, 97]\<rparr>) =
     loop (emit_parsed (Socket\<lparr>bufs := [97]\<rparr>) (negotiation_event DO WINDOW_SIZE)) \<and>
   bufs (emit_parsed (Socket\<lparr>bufs := [97]\<rparr>) (negotiation_event DO WINDOW_SIZE)) = [97]"
proof -
  have "parse [IAC, DO, WINDOW_SIZE, 97] = (Inr (Event (negotiation_event DO WINDOW_SIZE)), [97])"
    by (rule parse_negotiation) (simp_all add: decoded_options_def)
  from parse_splices_consumed_octets [OF this]
  have "(\<exists>raw. buf (negotiation_event DO WINDOW_SIZE) = Some raw \<and> raw \<noteq> [] \<and>
      [IAC, DO, WINDOW_SIZE, 97] = raw @ [97] \<and> [97] \<noteq> [IAC, DO, WINDOW_SIZE, 97])"
    and h: "\<forall>st. bufs st = [IAC, DO, WINDOW_SIZE, 97] \<and> 2 \<le> length [IAC, DO, WINDOW_SIZE, 97 :: byte]
        \<and> [IAC, DO, WINDOW_SIZE, 97] ! 0 = IAC \<longrightarrow>
        (\<forall>ev. Inr (Event (negotiation_event DO WINDOW_SIZE)) = (Inr (Event ev) :: error + outcome) \<longrightarrow>
               loop st = loop (emit_parsed (st\<lparr>bufs := [97]\<rparr>) ev) \<and>
               bufs (emit_parsed (st\<lparr>bufs := [97]\<rparr>) ev) = [97])"
    by blast+
  moreover from h [THEN spec, of "Socket\<lparr>bufs := [IAC, DO, WINDOW_SIZE, 97]\<rparr>"]
  have "loop (Socket\<lparr>bufs := [IAC, DO, WINDOW_SIZE, 97]\<rparr>) =
     loop (emit_parsed (Socket\<lparr>bufs := [IAC, DO, WINDOW_SIZE, 97]\<rparr>\<lparr>bufs := [97]\<rparr>)
       (negotiation_event DO WINDOW_SIZE)) \<and>
     bufs (emit_parsed (Socket\<lparr>bufs := [IAC, DO, WINDOW_SIZE, 97]\<rparr>\<lparr>bufs := [97]\<rparr>)
       (negotiation_event DO WINDOW_SIZE)) = [97]"
    by simp
  ultimately show ?thesis by simp
qed

text \<open>
  The claim as stated fails: the buffer meets the preconditions, and \<open>parse\<close> returns
  an event and leaves the buffer empty.
\<close>

theorem parse_leaves_buffer_counterexample:
  "2 \<le> length [IAC, DO, WINDOW_SIZE] \<and> [IAC, DO, WINDOW_SIZE] ! 0 = IAC \<and>
   parse [IAC, DO, WINDOW_SIZE] = (Inr (Event (negotiation_event DO WINDOW_SIZE)), []) \<and>
   snd (parse [IAC, DO, WINDOW_SIZE]) \<noteq> [IAC, DO, WINDOW_SIZE]"
proof -
  have "parse [IAC, DO, WINDOW_SIZE] = (Inr (Event (negotiation_event DO WINDOW_SIZE)), [])"
    by (rule parse_negotiation) (simp_all add: decoded_options_def)
  then show ?thesis by simp
qed

subsection \<open>Negotiation frames\<close>


lemma parse_no_decoder:
  assumes "cmd \<in> {DO, DONT, WILL, WONT, SB}" and "opt \<notin> decoded_options"
  shows "parse (IAC # cmd # opt # rest) = (Inl TypeError, IAC # cmd # opt # rest)"
proof -
  from assms(1) have c: "COMMAND_IMPLS cmd = Some command_option"
    by (rule COMMAND_IMPLS_option)
  from assms(2) have o: "OPTION_IMPLS opt = None"
    by (simp add: OPTION_IMPLS_None)
  show ?thesis
    by (simp add: parse_def parseCommand_def Buffers_get_def c command_option_def
        parseOption_def o numeral_2_eq_2[symmetric])
qed

lemma parse_option_MORE:
  assumes "cmd \<in> {DO, DONT, WILL, WONT, SB}"
  shows "parse [IAC, cmd] = (Inr MORE, [IAC, cmd])"
proof -
  from assms have c: "COMMAND_IMPLS cmd = Some command_option"
    by (rule COMMAND_IMPLS_option)
  show ?thesis
    by (simp add: parse_def parseCommand_def Buffers_get_def c command_option_def)
qed

lemma on_data_parse_error:
  assumes "bufs st = []" and "parse (IAC # x # xs) = (Inl e, rest)"
  shows "on_data st (IAC # x # xs) = (Some e, st\<lparr>bufs := rest\<rparr>)"
proof -
  have "loop (st\<lparr>bufs := bufs st @ IAC # x # xs\<rparr>) =
        (Inl e, st\<lparr>bufs := bufs st @ IAC # x # xs\<rparr>\<lparr>bufs := rest\<rparr>)"
    using assms by (intro loop_parse_error) simp_all
  then show ?thesis by (simp add: on_data_def)
qed

lemma on_data_MORE:
  assumes "bufs st = []" and "parse (IAC # xs) = (Inr MORE, rest)"
  shows "on_data st (IAC # xs) = (None, st\<lparr>bufs := rest\<rparr>)"
proof -
  have "loop (st\<lparr>bufs := bufs st @ IAC # xs\<rparr>) =
        (Inr True, st\<lparr>bufs := bufs st @ IAC # xs\<rparr>\<lparr>bufs := rest\<rparr>)"
    using assms by (intro loop_MORE) simp_all
  then show ?thesis by (simp add: on_data_def)
qed



text \<open>
  C4, the code at the failing inputs. An option code with no entry in
  \<^verbatim>\<open>OPTION_IMPLS\<close> has no fallback: for each of the five commands that read an
  option, \<open>parse\<close> throws a \<open>TypeError\<close> (it calls \<^verbatim>\<open>undefined\<close>), leaves the
  buffer as it is and returns no event; the input handler is left by this exception
  with the frame still pending, nothing emitted and nothing written.
\<close>

theorem no_decoder_TypeError:
  assumes "cmd \<in> {DO, DONT, WILL, WONT, SB}" and "opt \<notin> decoded_options"
  shows "OPTION_IMPLS opt = None \<and>
         parse (IAC # cmd # opt # rest) = (Inl TypeError, IAC # cmd # opt # rest) \<and>
         (bufs st = [] \<longrightarrow>
            on_data st (IAC # cmd # opt # rest) = (Some TypeError, st\<lparr>bufs := IAC # cmd # opt # rest\<rparr>))"
  using assms
  by (simp add: OPTION_IMPLS_None parse_no_decoder on_data_parse_error del: insert_iff)

theorem no_decoder_TypeError_witness:
  "OPTION_NAMES 6 = Some ''timing mark'' \<and> OPTION_IMPLS 6 = None \<and>
   parse [IAC, DO, 6] = (Inl TypeError, [IAC, DO, 6]) \<and>
   on_data Socket [IAC, DO, 6] = (Some TypeError, Socket\<lparr>bufs := [IAC, DO, 6]\<rparr>) \<and>
   written (Socket\<lparr>bufs := [IAC, DO, 6]\<rparr>) = [] \<and> emitted (Socket\<lparr>bufs := [IAC, DO, 6]\<rparr>) = []"
proof -
  have "DO \<in> {DO, DONT, WILL, WONT, SB}" by simp
  moreover have "6 \<notin> decoded_options" by (simp add: decoded_options_def)
  ultimately show ?thesis
    using no_decoder_TypeError [of DO 6 "[]" Socket]
    by (simp add: OPTION_NAMES_table Socket_def)
qed

lemma on_data_negotiation:
  assumes "bufs st = []" and "cmd \<in> {DO, DONT, WILL, WONT}" and "opt \<in> decoded_options"
  shows "on_data st [IAC, cmd, opt] = (None, emit_parsed st (negotiation_event cmd opt))"
  using assms by (intro on_data_one_frame parse_negotiation)

lemma on_data_second_part:
  assumes "parse (IAC # xs) = (Inr MORE, IAC # xs)" and "bufs st = []"
  shows "deliver st [IAC # xs, ys] = on_data st (IAC # xs @ ys)"
proof -
  from assms have "on_data st (IAC # xs) = (None, st\<lparr>bufs := IAC # xs\<rparr>)"
    by (intro on_data_MORE) simp_all
  moreover have "on_data (st\<lparr>bufs := IAC # xs\<rparr>) ys = on_data st (IAC # xs @ ys)"
    using assms(2) by (simp add: on_data_def)
  ultimately show ?thesis
    by (cases "on_data st (IAC # xs @ ys)") (auto split: option.splits)
qed

lemma loop_after_frames:
  assumes "\<forall>(c, opt) \<in> set fs. c \<in> {DO, DONT, WILL, WONT} \<and> opt \<in> decoded_options"
    and "bufs st = concat (map (\<lambda>(c, opt). [IAC, c, opt]) fs) @ bs"
    and "\<And>st'. bufs st' = bs \<Longrightarrow> loop st' = (Inl AssertionError, st')"
  shows "fst (loop st) = Inl AssertionError \<and> bufs (snd (loop st)) = bs"
  using assms(1,2)
proof (induction fs arbitrary: st)
  case Nil
  then show ?case by (simp add: assms(3))
next
  case (Cons f fs)
  obtain c opt where f: "f = (c, opt)" by (cases f)
  let ?rest = "concat (map (\<lambda>(c, opt). [IAC, c, opt]) fs) @ bs"
  from Cons.prems(1) f have c: "c \<in> {DO, DONT, WILL, WONT}" and o: "opt \<in> decoded_options"
    by simp_all
  from Cons.prems(2) f have b: "bufs st = IAC # c # opt # ?rest" by simp
  from c o have "parse (IAC # c # opt # ?rest) = (Inr (Event (negotiation_event c opt)), ?rest)"
    by (rule parse_negotiation)
  with b have "loop st = loop (emit_parsed (st\<lparr>bufs := ?rest\<rparr>) (negotiation_event c opt))"
    by (intro loop_Event) simp_all
  moreover have "fst (loop (emit_parsed (st\<lparr>bufs := ?rest\<rparr>) (negotiation_event c opt)))
      = Inl AssertionError \<and>
    bufs (snd (loop (emit_parsed (st\<lparr>bufs := ?rest\<rparr>) (negotiation_event c opt)))) = bs"
    using Cons.prems(1) by (intro Cons.IH) (simp_all add: bufs_emit_parsed)
  ultimately show ?case by simp
qed

text \<open>
  C10, as the code has it. Whenever the loop of the input handler starts an iteration
  on a pending buffer whose first IAC (the one \<^verbatim>\<open>bufs.indexOf\<close> finds) is the last
  octet of the buffer, it throws the assertion error before it emits or parses
  anything, and the buffer keeps all octets. This is so for the first iteration after
  a delivery is appended, for the iteration after a complete frame whose event has
  been emitted, and after any number of complete negotiation frames. Delivering [IAC]
  and then [DO, 31] stops at the first delivery with this error, while [IAC, DO] and
  then [31] gives the event.
\<close>

theorem IAC_last_assertion:
  assumes "Buffers_indexOf bs IAC = Some i" and "length bs = i + 1"
  shows "(bufs st = bs \<longrightarrow> loop st = (Inl AssertionError, st)) \<and>
         (bufs st @ b = bs \<longrightarrow> on_data st b = (Some AssertionError, st\<lparr>bufs := bs\<rparr>)) \<and>
         (bufs st = IAC # xs \<and> parse (IAC # xs) = (Inr (Event ev), bs) \<longrightarrow>
            loop st = (Inl AssertionError, emit_parsed (st\<lparr>bufs := bs\<rparr>) ev)) \<and>
         (bufs st = [] \<and> parse (IAC # xs) = (Inr (Event ev), bs) \<longrightarrow>
            on_data st (IAC # xs) = (Some AssertionError, emit_parsed (st\<lparr>bufs := bs\<rparr>) ev)) \<and>
         ((\<forall>(c, opt) \<in> set fs. c \<in> {DO, DONT, WILL, WONT} \<and> opt \<in> decoded_options) \<and>
          bufs st = concat (map (\<lambda>(c, opt). [IAC, c, opt]) fs) @ bs \<longrightarrow>
            fst (loop st) = Inl AssertionError \<and> bufs (snd (loop st)) = bs) \<and>
         deliver Socket [[IAC], [DO, WINDOW_SIZE]] = (Some AssertionError, Socket\<lparr>bufs := [IAC]\<rparr>) \<and>
         deliver Socket [[IAC, DO], [WINDOW_SIZE]] =
           (None, emit_parsed Socket (negotiation_event DO WINDOW_SIZE))"
proof -
  have l: "loop st' = (Inl AssertionError, st')" if "bufs st' = bs" for st'
    using assms that by (subst loop.simps) simp
  have 1: "on_data st b = (Some AssertionError, st\<lparr>bufs := bs\<rparr>)" if "bufs st @ b = bs"
    using that l [of "st\<lparr>bufs := bs\<rparr>"] by (simp add: on_data_def)
  have 2: "loop st = (Inl AssertionError, emit_parsed (st\<lparr>bufs := bs\<rparr>) ev)"
    if "bufs st = IAC # xs \<and> parse (IAC # xs) = (Inr (Event ev), bs)"
  proof -
    from that have "loop st = loop (emit_parsed (st\<lparr>bufs := bs\<rparr>) ev)"
      by (intro loop_Event) simp_all
    also have "\<dots> = (Inl AssertionError, emit_parsed (st\<lparr>bufs := bs\<rparr>) ev)"
      by (rule l) (simp add: bufs_emit_parsed)
    finally show ?thesis .
  qed
  have 3: "on_data st (IAC # xs) = (Some AssertionError, emit_parsed (st\<lparr>bufs := bs\<rparr>) ev)"
    if "bufs st = [] \<and> parse (IAC # xs) = (Inr (Event ev), bs)"
  proof -
    let ?st0 = "st\<lparr>bufs := bufs st @ IAC # xs\<rparr>"
    from that have "loop ?st0 = loop (emit_parsed (?st0\<lparr>bufs := bs\<rparr>) ev)"
      by (intro loop_Event) simp_all
    also have "\<dots> = (Inl AssertionError, emit_parsed (?st0\<lparr>bufs := bs\<rparr>) ev)"
      by (rule l) (simp add: bufs_emit_parsed)
    finally show ?thesis by (simp add: on_data_def)
  qed
  have s: "bufs Socket = []" by (simp add: Socket_def)
  have "loop (Socket\<lparr>bufs := [IAC]\<rparr>) = (Inl AssertionError, Socket\<lparr>bufs := [IAC]\<rparr>)"
    using loop_IAC_last [of "Socket\<lparr>bufs := [IAC]\<rparr>" "[]"] by simp
  then have 4: "deliver Socket [[IAC], [DO, WINDOW_SIZE]] = (Some AssertionError, Socket\<lparr>bufs := [IAC]\<rparr>)"
    using s by (simp add: on_data_def)
  have "parse (IAC # [DO]) = (Inr MORE, IAC # [DO])"
    by (rule parse_option_MORE) simp
  from on_data_second_part [OF this s, of "[WINDOW_SIZE]"]
  have 5: "deliver Socket [[IAC, DO], [WINDOW_SIZE]] =
           (None, emit_parsed Socket (negotiation_event DO WINDOW_SIZE))"
    using s by (simp add: on_data_negotiation decoded_options_def)
  have 6: "fst (loop st) = Inl AssertionError \<and> bufs (snd (loop st)) = bs"
    if "(\<forall>(c, opt) \<in> set fs. c \<in> {DO, DONT, WILL, WONT} \<and> opt \<in> decoded_options) \<and>
          bufs st = concat (map (\<lambda>(c, opt). [IAC, c, opt]) fs) @ bs"
    using that l by (intro loop_after_frames) blast+
  from l [of st] 1 2 3 4 5 6 show ?thesis by blast
qed

theorem IAC_last_assertion_witness:
  "on_data Socket [97, IAC] = (Some AssertionError, Socket\<lparr>bufs := [97, IAC]\<rparr>) \<and>
   emitted (Socket\<lparr>bufs := [97, IAC]\<rparr>) = [] \<and>
   on_data Socket [IAC, DO, WINDOW_SIZE, 97, IAC] =
     (Some AssertionError,
      emit_parsed (Socket\<lparr>bufs := [97, IAC]\<rparr>) (negotiation_event DO WINDOW_SIZE)) \<and>
   bufs (emit_parsed (Socket\<lparr>bufs := [97, IAC]\<rparr>) (negotiation_event DO WINDOW_SIZE)) = [97, IAC]"
proof -
  have i: "Buffers_indexOf [97, IAC] IAC = Some 1" by simp
  have n: "length [97, IAC :: byte] = 1 + 1" by simp
  have s: "bufs Socket = []" by (simp add: Socket_def)
  have p: "parse (IAC # [DO, WINDOW_SIZE, 97, IAC]) =
      (Inr (Event (negotiation_event DO WINDOW_SIZE)), [97, IAC])"
    by (rule parse_negotiation) (simp_all add: decoded_options_def)
  from IAC_last_assertion [OF i n, of Socket "[97, IAC]" "[DO, WINDOW_SIZE, 97, IAC]"
      "negotiation_event DO WINDOW_SIZE" "[]"] s p
  show ?thesis by (simp add: bufs_emit_parsed) (simp add: Socket_def)
qed

text \<open>
  The claim as stated fails: a delivery can leave the pending buffer with an IAC as its
  last octet, no octet after it, without the assertion error. The IAC that ends an
  incomplete window-size frame leaves the handler suspended on \<^verbatim>\<open>MORE\<close> with the
  buffer kept, and the second IAC of a doubled IAC is consumed as data.
\<close>

theorem IAC_last_counterexample:
  "last [IAC, SB, WINDOW_SIZE, 0, 80, 0, 24, IAC] = IAC \<and>
   on_data Socket [IAC, SB, WINDOW_SIZE, 0, 80, 0, 24, IAC] =
     (None, Socket\<lparr>bufs := [IAC, SB, WINDOW_SIZE, 0, 80, 0, 24, IAC]\<rparr>) \<and>
   last [IAC, IAC] = IAC \<and>
   on_data Socket [IAC, IAC] = (None, emit_parsed Socket iac_event)"
proof -
  have s: "bufs Socket = []" by (simp add: Socket_def)
  have "parse (IAC # [SB, WINDOW_SIZE, 0, 80, 0, 24, IAC]) =
      (Inr MORE, IAC # [SB, WINDOW_SIZE, 0, 80, 0, 24, IAC])"
    by (rule parse_SB_MORE) simp_all
  with s have 1: "on_data Socket (IAC # [SB, WINDOW_SIZE, 0, 80, 0, 24, IAC]) =
      (None, Socket\<lparr>bufs := IAC # [SB, WINDOW_SIZE, 0, 80, 0, 24, IAC]\<rparr>)"
    by (rule on_data_MORE)
  have "parse (IAC # [IAC]) = (Inr (Event iac_event), [])"
    by (simp add: parse_IAC_IAC)
  with s have 2: "on_data Socket (IAC # [IAC]) = (None, emit_parsed Socket iac_event)"
    by (rule on_data_one_frame)
  from 1 2 show ?thesis by simp
qed

lemma OPTION_NAMES_decoded:
  assumes "opt \<in> decoded_options"
  shows "\<exists>n. OPTION_NAMES opt = Some n \<and> n \<noteq> [] \<and> n \<noteq> ''event''"
  using assms by (auto simp add: decoded_options_def OPTION_NAMES_table)

lemma COMMAND_NAMES_negotiation:
  assumes "cmd \<in> {DO, DONT, WILL, WONT}"
  shows "\<exists>n. COMMAND_NAMES cmd = Some n \<and> n \<noteq> ''event''"
  using assms by (auto simp add: COMMAND_NAMES_table)

lemma emit_parsed_negotiation:
  assumes "local_options st = OptionSet True" and "remote_options st = OptionSet False"
    and "cmd \<in> {DO, DONT, WILL, WONT}" and "opt \<in> decoded_options"
  shows "emit_parsed st (negotiation_event cmd opt) =
     st\<lparr>emitted := emitted st @ [(''event'', Ev (negotiation_event cmd opt)),
            (the (COMMAND_NAMES cmd), Ev (negotiation_event cmd opt)),
            (the (OPTION_NAMES opt), Ev (negotiation_event cmd opt))],
        written := written st @ replies cmd opt\<rparr>"
proof -
  from assms(4) obtain n where n: "OPTION_NAMES opt = Some n" "n \<noteq> []" "n \<noteq> ''event''"
    using OPTION_NAMES_decoded by blast
  from assms(3) obtain c where c: "COMMAND_NAMES cmd = Some c" "c \<noteq> ''event''"
    using COMMAND_NAMES_negotiation by blast
  have h1: "handleOptions (OptionSet True) (negotiation_event cmd opt) =
      (if cmd = DO then [Buffer [IAC, WONT, opt]] else [])"
    using n by (simp add: handleOptions_def OptionSet_def negotiation_event_def)
  have h2: "handleOptions (OptionSet False) (negotiation_event cmd opt) =
      (if cmd = WILL then [Buffer [IAC, DONT, opt]] else [])"
    using n by (simp add: handleOptions_def OptionSet_def negotiation_event_def)
  have ne: "command (negotiation_event cmd opt) = Some c" "option (negotiation_event cmd opt) = Some n"
    "data (negotiation_event cmd opt) = None"
    using n c by (simp_all add: negotiation_event_def)
  show ?thesis
    using assms(1,2) n c
    by (simp add: emit_parsed_def emit_def Let_def ne h1 h2 replies_def)
qed


lemma Socket_fields:
  "bufs Socket = []" "emitted Socket = []" "written Socket = []"
  "local_options Socket = OptionSet True" "remote_options Socket = OptionSet False"
  by (simp_all add: Socket_def)


text \<open>
  The default refusal where the parser has a decoder. For every option code that has an
  entry in \<^verbatim>\<open>OPTION_IMPLS\<close> (they all have a name), a socket as constructed with
  nothing pending that receives IAC DO option writes exactly [IAC, WONT, option], and
  one that receives IAC WILL option writes exactly [IAC, DONT, option]. Delivering
  IAC DO 31 IAC WILL 31 writes IAC WONT 31 and then IAC DONT 31.
\<close>

lemma refusal_for_decoded_options:
  assumes "idle st" and "opt \<in> decoded_options"
  shows "fst (on_data st [IAC, DO, opt]) = None \<and>
         written (snd (on_data st [IAC, DO, opt])) = written st @ [Buffer [IAC, WONT, opt]] \<and>
         fst (on_data st [IAC, WILL, opt]) = None \<and>
         written (snd (on_data st [IAC, WILL, opt])) = written st @ [Buffer [IAC, DONT, opt]] \<and>
         fst (on_data Socket [IAC, DO, WINDOW_SIZE, IAC, WILL, WINDOW_SIZE]) = None \<and>
         written (snd (on_data Socket [IAC, DO, WINDOW_SIZE, IAC, WILL, WINDOW_SIZE])) =
           [Buffer [IAC, WONT, WINDOW_SIZE], Buffer [IAC, DONT, WINDOW_SIZE]]"
proof -
  from assms(1) have i: "bufs st = []" "local_options st = OptionSet True"
    "remote_options st = OptionSet False"
    by (simp_all add: idle_def)
  have 1: "on_data st [IAC, cmd, opt] =
      (None, st\<lparr>emitted := emitted st @ [(''event'', Ev (negotiation_event cmd opt)),
            (the (COMMAND_NAMES cmd), Ev (negotiation_event cmd opt)),
            (the (OPTION_NAMES opt), Ev (negotiation_event cmd opt))],
        written := written st @ replies cmd opt\<rparr>)"
    if "cmd \<in> {DO, DONT, WILL, WONT}" for cmd
    using i that assms(2) by (simp only: on_data_negotiation emit_parsed_negotiation)
  have w: "WINDOW_SIZE \<in> decoded_options" by (simp add: decoded_options_def)
  have s: "bufs Socket = []" "local_options Socket = OptionSet True"
    "remote_options Socket = OptionSet False"
    by (simp_all add: Socket_def)
  let ?e1 = "negotiation_event DO WINDOW_SIZE" and ?e2 = "negotiation_event WILL WINDOW_SIZE"
  let ?st0 = "Socket\<lparr>bufs := bufs Socket @ [IAC, DO, WINDOW_SIZE, IAC, WILL, WINDOW_SIZE]\<rparr>"
  let ?st1 = "emit_parsed (?st0\<lparr>bufs := [IAC, WILL, WINDOW_SIZE]\<rparr>) ?e1"
  let ?st2 = "emit_parsed (?st1\<lparr>bufs := []\<rparr>) ?e2"
  have "parse [IAC, DO, WINDOW_SIZE, IAC, WILL, WINDOW_SIZE] = (Inr (Event ?e1), [IAC, WILL, WINDOW_SIZE])"
    using w by (intro parse_negotiation) simp_all
  then have "loop ?st0 = loop ?st1"
    using s(1) by (intro loop_Event) simp_all
  also have "\<dots> = loop ?st2"
  proof (rule loop_Event)
    show "bufs ?st1 = IAC # [WILL, WINDOW_SIZE]" by (simp add: bufs_emit_parsed)
    show "parse (bufs ?st1) = (Inr (Event ?e2), [])"
      using w by (simp add: bufs_emit_parsed parse_negotiation)
  qed
  also have "\<dots> = (Inr False, ?st2)"
    by (intro loop_no_IAC) (simp add: bufs_emit_parsed)
  finally have "on_data Socket [IAC, DO, WINDOW_SIZE, IAC, WILL, WINDOW_SIZE] = (None, ?st2)"
    by (simp add: on_data_def bufs_emit_parsed)
  moreover have "written ?st2 = [Buffer [IAC, WONT, WINDOW_SIZE], Buffer [IAC, DONT, WINDOW_SIZE]]"
    using w by (simp add: emit_parsed_negotiation bufs_emit_parsed s replies_def)
      (simp add: Socket_def)
  ultimately show ?thesis
    using 1 [of DO] 1 [of WILL] by (simp add: replies_def)
qed

text \<open>
  C1, the code at the failing inputs. For an option code without an entry in
  \<^verbatim>\<open>OPTION_IMPLS\<close> (6, \<^verbatim>\<open>TIMING_MARK\<close>, and every code outside the table) a
  socket with nothing pending that receives IAC DO option or IAC WILL option writes
  no refusal: the parser throws the \<open>TypeError\<close> out of the input handler, the frame
  stays pending, and nothing is emitted or written.
\<close>

theorem no_refusal_without_decoder:
  assumes "bufs st = []" and "cmd \<in> {DO, WILL}" and "opt \<notin> decoded_options"
  shows "on_data st [IAC, cmd, opt] = (Some TypeError, st\<lparr>bufs := [IAC, cmd, opt]\<rparr>) \<and>
         written (snd (on_data st [IAC, cmd, opt])) = written st \<and>
         emitted (snd (on_data st [IAC, cmd, opt])) = emitted st"
proof -
  from assms(2) have "cmd \<in> {DO, DONT, WILL, WONT, SB}" by blast
  then have "parse (IAC # cmd # opt # []) = (Inl TypeError, IAC # cmd # opt # [])"
    using assms(3) by (rule parse_no_decoder)
  with assms(1) have "on_data st (IAC # cmd # opt # []) =
      (Some TypeError, st\<lparr>bufs := IAC # cmd # opt # []\<rparr>)"
    by (rule on_data_parse_error)
  then show ?thesis by simp
qed

theorem no_refusal_without_decoder_witness:
  "on_data Socket [IAC, WILL, 6] = (Some TypeError, Socket\<lparr>bufs := [IAC, WILL, 6]\<rparr>) \<and>
   written (snd (on_data Socket [IAC, WILL, 6])) = [] \<and>
   on_data Socket [IAC, DO, 99] = (Some TypeError, Socket\<lparr>bufs := [IAC, DO, 99]\<rparr>) \<and>
   written (snd (on_data Socket [IAC, DO, 99])) = []"
proof -
  have s: "bufs Socket = []" by (simp add: Socket_def)
  have c: "WILL \<in> {DO, WILL}" "DO \<in> {DO, WILL}" by simp_all
  have o: "6 \<notin> decoded_options" "99 \<notin> decoded_options"
    by (simp_all add: decoded_options_def)
  from no_refusal_without_decoder [OF s c(1) o(1)] no_refusal_without_decoder [OF s c(2) o(2)]
  show ?thesis by (simp add: Socket_fields)
qed




subsection \<open>Line endings on output\<close>

lemma normalize_newlines_pieces: "normalize_newlines s = join_pieces (split_on LF s)"
  by (simp add: normalize_newlines_def)

lemma split_on_not_Nil: "split_on c xs \<noteq> []"
  by (induction xs) (auto split: list.splits)

lemma join_CRLF_Cons: "ms \<noteq> [] \<Longrightarrow> join_CRLF (l # ms) = l @ [CR, LF] @ join_CRLF ms"
  by (cases ms) simp_all

lemma join_pieces_single: "join_pieces [l] = l"
  by (simp add: join_pieces_def)

lemma join_pieces_Cons:
  assumes "ps \<noteq> []"
  shows "join_pieces (l # ps) = chomp_CR l @ [CR, LF] @ join_pieces ps"
  using assms by (simp add: join_pieces_def join_CRLF_Cons)

lemma join_pieces_grow:
  assumes "ps = [] \<or> l \<noteq> [] \<or> x \<noteq> CR"
  shows "join_pieces ((x # l) # ps) = x # join_pieces (l # ps)"
proof (cases "ps = []")
  case True
  then show ?thesis by (simp add: join_pieces_single)
next
  case False
  with assms have "chomp_CR (x # l) = x # chomp_CR l"
    by (auto simp add: chomp_CR_def)
  with False show ?thesis by (simp add: join_pieces_Cons)
qed

lemma replace_newlines_normalize: "replace_newlines s = normalize_newlines s"
proof (induction s rule: replace_newlines.induct)
  case 1
  show ?case by (simp add: normalize_newlines_pieces join_pieces_single)
next
  case (2 x)
  show ?case
    by (simp add: normalize_newlines_pieces join_pieces_single join_pieces_Cons chomp_CR_def)
next
  case (3 x y zs)
  obtain l ls where sp: "split_on LF (y # zs) = l # ls"
    using split_on_not_Nil [of LF "y # zs"] by (cases "split_on LF (y # zs)") auto
  consider (crlf) "x = CR" "y = LF" | (lf) "x = LF" | (other) "x \<noteq> LF" "\<not> (x = CR \<and> y = LF)"
    by blast
  then show ?case
  proof cases
    case crlf
    then have "split_on LF (x # y # zs) = [CR] # split_on LF zs"
      by simp
    then have "normalize_newlines (x # y # zs) = CR # LF # normalize_newlines zs"
      by (simp add: normalize_newlines_pieces join_pieces_Cons split_on_not_Nil chomp_CR_def)
    with crlf 3 show ?thesis by simp
  next
    case lf
    then have "split_on LF (x # y # zs) = [] # split_on LF (y # zs)"
      by simp
    then have "normalize_newlines (x # y # zs) = CR # LF # normalize_newlines (y # zs)"
      by (simp only: normalize_newlines_pieces)
        (simp add: join_pieces_Cons split_on_not_Nil chomp_CR_def del: split_on.simps)
    with lf 3 show ?thesis by simp
  next
    case other
    from other(1) sp have s: "split_on LF (x # y # zs) = (x # l) # ls" by simp
    have "ls = [] \<or> l \<noteq> [] \<or> x \<noteq> CR"
    proof (cases "x = CR")
      case True
      with other(2) have "y \<noteq> LF" by simp
      with sp have "l \<noteq> []" by (auto split: list.splits)
      then show ?thesis by simp
    qed simp
    then have "join_pieces ((x # l) # ls) = x # join_pieces (l # ls)"
      by (rule join_pieces_grow)
    with s sp have "normalize_newlines (x # y # zs) = x # normalize_newlines (y # zs)"
      by (simp only: normalize_newlines_pieces)
    with other 3 show ?thesis by auto
  qed
qed


lemma utf8_decode_from_ascii:
  assumes "\<forall>x\<in>set bs. x < 128"
  shows "utf8_decode_from 0 0 128 191 bs = map unat bs"
  using assms
proof (induction bs)
  case Nil
  show ?case by simp
next
  case (Cons b bs)
  then have "b < 128" by simp
  then have "unat b \<le> 127" by (simp add: word_less_nat_alt)
  with Cons show ?case by simp
qed

lemma utf8_decode_ascii:
  assumes "\<forall>x\<in>set bs. x < 128"
  shows "utf8_decode bs = map ucast bs"
proof -
  have "concat (map utf16_units (map unat bs)) = map ucast bs"
    by (induction bs) (simp_all add: utf16_units_def order_less_trans [OF unsigned_less])
  with assms show ?thesis
    by (simp add: utf8_decode_def utf8_decode_from_ascii)
qed

lemma utf8_encode_ascii:
  assumes "\<forall>u\<in>set s. u < 128"
  shows "utf8_encode s = map ucast s"
  using assms
proof (induction s rule: utf8_encode.induct)
  case 1
  show ?case by simp
next
  case (2 u)
  then have "unat u < 128" by (simp add: word_less_nat_alt)
  then show ?case by simp
next
  case (3 u v us)
  then have "unat u < 128" by (simp add: word_less_nat_alt)
  with 3 show ?case by simp
qed

lemma replace_newlines_ascii:
  assumes "\<forall>u\<in>set s. u < 128"
  shows "\<forall>u\<in>set (replace_newlines s). u < 128"
  using assms by (induction s rule: replace_newlines.induct) auto

text \<open>
  C2, as the code has it. With \<^verbatim>\<open>convertLF\<close> set, \<^verbatim>\<open>write(b)\<close> hands the
  transport's \<^verbatim>\<open>write\<close> one value: the text \<^verbatim>\<open>b.toString('utf8')\<close> with every
  newline, a lone LF or a CR LF, replaced by CR LF. For a string this text is \<open>b\<close>
  itself. For a \<^verbatim>\<open>Buffer\<close> of ASCII octets it is these octets, and the octets that
  reach the wire are the octets of \<open>b\<close> with every newline replaced by CR LF.
\<close>

theorem write_normalizes_newlines:
  assumes "convertLF st"
  shows "Socket_write st b =
           st\<lparr>written := written st @ [Text (normalize_newlines (toString_utf8 b))]\<rparr> \<and>
         toString_utf8 (Text s) = s \<and>
         ((\<forall>x\<in>set bs. x < 128) \<longrightarrow>
            toString_utf8 (Buffer bs) = map ucast bs \<and>
            wire (Text (normalize_newlines (toString_utf8 (Buffer bs)))) =
              map ucast (normalize_newlines (map ucast bs)))"
proof -
  have "wire (Text (normalize_newlines (toString_utf8 (Buffer bs)))) =
              map ucast (normalize_newlines (map ucast bs))"
    if a: "\<forall>x\<in>set bs. x < 128"
  proof -
    have "\<forall>u\<in>set (map ucast bs :: jsstring). u < 128"
    proof
      fix u :: "16 word"
      assume "u \<in> set (map ucast bs)"
      then obtain x where "x \<in> set bs" and u: "u = ucast x" by auto
      with a have "x < 128" by simp
      then have x: "unat x < 128" by (simp add: word_less_nat_alt)
      then have "unat x < 2 ^ 16" by simp
      then have "unat (ucast x :: 16 word) = unat x"
        by (simp add: unsigned_ucast_eq take_bit_nat_eq_self)
      with x show "u < 128" by (simp add: u word_less_nat_alt)
    qed
    then have "\<forall>u\<in>set (replace_newlines (map ucast bs)). u < 128"
      by (rule replace_newlines_ascii)
    then show ?thesis
      using a by (simp add: utf8_decode_ascii utf8_encode_ascii replace_newlines_normalize [symmetric])
  qed
  with assms show ?thesis
    by (simp add: Socket_write_def replace_newlines_normalize utf8_decode_ascii)
qed

theorem write_normalizes_newlines_witness:
  "Socket_write Socket (Text [97, LF, 98, CR, LF]) =
     Socket\<lparr>written := [Text [97, CR, LF, 98, CR, LF]]\<rparr> \<and>
   wire (Text (normalize_newlines (toString_utf8 (Buffer [97, 10, 98, 13, 10])))) =
     [97, 13, 10, 98, 13, 10]"
proof -
  have n: "normalize_newlines [97, LF, 98, CR, LF] = [97, CR, LF, 98, CR, LF]"
    by (simp add: replace_newlines_normalize [symmetric])
  have "convertLF Socket" by (simp add: Socket_def)
  moreover have "\<forall>x\<in>set [97, 10, 98, 13, 10 :: byte]. x < 128" by simp
  ultimately show ?thesis
    using write_normalizes_newlines [of Socket "Text [97, LF, 98, CR, LF]" _ "[97, 10, 98, 13, 10]"]
    by (simp add: n) (simp add: Socket_def)
qed

text \<open>
  The claim as stated fails for an octet sequence that is not UTF-8: the single octet
  255, which holds no newline, is decoded to U+FFFD, and the three octets of U+FFFD
  reach the wire.
\<close>

theorem write_bytes_counterexample:
  "convertLF Socket \<and>
   written (Socket_write Socket (Buffer [255])) = [Text [65533]] \<and>
   wire (Text [65533]) = [239, 191, 189] \<and>
   map ucast (normalize_newlines (map ucast [255 :: byte])) = [255 :: byte] \<and>
   wire (last (written (Socket_write Socket (Buffer [255])))) \<noteq> [255]"
  by (simp add: Socket_def Socket_write_def utf8_decode_def utf16_units_def
      replace_newlines_normalize [symmetric])

end
